theory Spec2Isabelle
  imports Main "HOL-Library.More_List"
begin

section \<open>Geometry: the class \<open>Vector\<close> of digger3.cpp\<close>

text \<open>
  The class has two \<open>int\<close> members \<open>x\<close> and \<open>y\<close>; the selectors are called \<open>vx\<close> and
  \<open>vy\<close> here. Coordinates stay within a few cells of the allocated grid, so they are
  mathematical integers. \<open>operator+\<close> and \<open>operator-\<close> are the type's \<open>+\<close> and \<open>-\<close>, and
  \<open>operator*(int)\<close> is \<open>scale\<close>.
\<close>

datatype Vector = Vector (vx: int) (vy: int)

instantiation Vector :: "{plus, minus}"
begin

definition plus_Vector :: "Vector \<Rightarrow> Vector \<Rightarrow> Vector" where
  "plus_Vector a b = Vector (vx a + vx b) (vy a + vy b)"

definition minus_Vector :: "Vector \<Rightarrow> Vector \<Rightarrow> Vector" where
  "minus_Vector a b = Vector (vx a - vx b) (vy a - vy b)"

instance ..

end

definition scale :: "Vector \<Rightarrow> int \<Rightarrow> Vector" where
  "scale v n = Vector (vx v * n) (vy v * n)"

definition left :: "Vector \<Rightarrow> Vector" where
  "left v = Vector (vy v) (- vx v)"

definition right :: "Vector \<Rightarrow> Vector" where
  "right v = Vector (- vy v) (vx v)"

text \<open>The four cardinal unit vectors, the only headings the program ever builds.\<close>

definition is_dir :: "Vector \<Rightarrow> bool" where
  "is_dir v = (v = Vector 0 (-1) \<or> v = Vector 0 1 \<or> v = Vector (-1) 0 \<or> v = Vector 1 0)"

section \<open>Tiles, doorways and the global state\<close>

datatype tile = TILE_UNKNOWN | TILE_FLOOR | TILE_WALL | TILE_PERMAWALL | TILE_DOOR

datatype error = OutOfBounds

record Doorway =
  location :: Vector
  heading :: Vector
  has_door :: bool

text \<open>
  The globals of the program. \<open>grid\<close> is the store behind \<open>int **grid\<close>: the cell
  \<open>grid[v.y][v.x]\<close> is addressed by the vector \<open>v\<close>, and a vector outside the allocation has
  no cell (\<open>None\<close>). \<open>rand_src k\<close> is the value that call number \<open>k\<close> of \<open>rand()\<close> returns,
  and \<open>rand_calls\<close> counts the calls made so far.
\<close>

record world =
  grid :: "Vector \<Rightarrow> tile option"
  size_x :: int
  size_y :: int
  doorways :: "Doorway list"
  rand_src :: "nat \<Rightarrow> nat"
  rand_calls :: nat

definition max_tries :: nat where
  "max_tries = 5"

section \<open>Grid access\<close>

text \<open>
  An access outside the allocation is undefined behaviour in the source; here it is the
  error \<open>OutOfBounds\<close>.
\<close>

definition grid_read :: "world \<Rightarrow> Vector \<Rightarrow> error + tile" where
  "grid_read st v = (case grid st v of None \<Rightarrow> Inl OutOfBounds | Some t \<Rightarrow> Inr t)"

definition grid_write :: "world \<Rightarrow> Vector \<Rightarrow> tile \<Rightarrow> error + world" where
  "grid_write st v t =
     (case grid st v of None \<Rightarrow> Inl OutOfBounds
      | Some old \<Rightarrow> Inr (st\<lparr>grid := (grid st)(v \<mapsto> t)\<rparr>))"

definition is_in_bounds :: "world \<Rightarrow> Vector \<Rightarrow> bool" where
  "is_in_bounds st v = (vx v \<ge> 1 \<and> vy v \<ge> 1 \<and> vx v < size_x st - 1 \<and> vy v < size_y st - 1)"

definition is_in_bounds_or_border :: "world \<Rightarrow> Vector \<Rightarrow> bool" where
  "is_in_bounds_or_border st v = (vx v \<ge> 0 \<and> vy v \<ge> 0 \<and> vx v < size_x st \<and> vy v < size_y st)"

definition wallish :: "tile \<Rightarrow> bool" where
  "wallish t = (t = TILE_WALL \<or> t = TILE_UNKNOWN \<or> t = TILE_PERMAWALL)"

definition is_wall :: "world \<Rightarrow> Vector \<Rightarrow> error + bool" where
  "is_wall st v = (case grid_read st v of Inl e \<Rightarrow> Inl e | Inr t \<Rightarrow> Inr (wallish t))"

definition is_permawall :: "world \<Rightarrow> Vector \<Rightarrow> error + bool" where
  "is_permawall st v =
     (case grid_read st v of Inl e \<Rightarrow> Inl e | Inr t \<Rightarrow> Inr (t = TILE_PERMAWALL))"

definition dig_tile :: "world \<Rightarrow> Vector \<Rightarrow> error + world" where
  "dig_tile st v = grid_write st v TILE_FLOOR"

definition door_tile :: "world \<Rightarrow> Vector \<Rightarrow> error + world" where
  "door_tile st v = grid_write st v TILE_DOOR"

definition fill_tile :: "world \<Rightarrow> Vector \<Rightarrow> error + world" where
  "fill_tile st v = grid_write st v TILE_WALL"

definition permawall_tile :: "world \<Rightarrow> Vector \<Rightarrow> error + world" where
  "permawall_tile st v = grid_write st v TILE_PERMAWALL"

section \<open>Random numbers\<close>

text \<open>
  \<open>rand() % (Max-Min+1) + Min\<close>, with \<open>lo\<close> for \<open>Min\<close> and \<open>hi\<close> for \<open>Max\<close>. The value of
  \<open>rand()\<close> is not negative and the divisor is positive at every call site, so the
  remainder of C is \<open>mod\<close>.
\<close>

definition rand_range :: "world \<Rightarrow> int \<Rightarrow> int \<Rightarrow> int \<times> world" where
  "rand_range st lo hi =
     (int (rand_src st (rand_calls st)) mod (hi - lo + 1) + lo,
      st\<lparr>rand_calls := Suc (rand_calls st)\<rparr>)"

definition push_back :: "world \<Rightarrow> Doorway \<Rightarrow> world" where
  "push_back st d = st\<lparr>doorways := doorways st @ [d]\<rparr>"

section \<open>dig_room\<close>

text \<open>
  The inner loop of the footprint check, \<open>n\<close> iterations from \<open>pos\<close>: \<open>None\<close> is the
  \<open>return 0\<close>, \<open>Some pos\<close> the position the loop leaves in \<open>pos\<close>.
\<close>

fun room_check_row :: "world \<Rightarrow> Vector \<Rightarrow> Vector \<Rightarrow> nat \<Rightarrow> Vector \<Rightarrow> error + Vector option" where
  "room_check_row st entrance hdg 0 pos = Inr (Some pos)"
| "room_check_row st entrance hdg (Suc n) pos =
     (if \<not> is_in_bounds_or_border st pos then Inr None
      else case is_wall st pos of Inl e \<Rightarrow> Inl e
        | Inr w \<Rightarrow>
            if \<not> w \<and> pos \<noteq> entrance then Inr None
            else room_check_row st entrance hdg n (pos + right hdg))"

text \<open>The outer loop of the check, \<open>m\<close> rows of \<open>nat (sx + 2)\<close> cells each.\<close>

fun room_check :: "world \<Rightarrow> Vector \<Rightarrow> Vector \<Rightarrow> int \<Rightarrow> nat \<Rightarrow> Vector \<Rightarrow> error + bool" where
  "room_check st entrance hdg sx 0 pos = Inr True"
| "room_check st entrance hdg sx (Suc m) pos =
     (case room_check_row st entrance hdg (nat (sx + 2)) pos of Inl e \<Rightarrow> Inl e
      | Inr None \<Rightarrow> Inr False
      | Inr (Some pos') \<Rightarrow>
          room_check st entrance hdg sx m (pos' - scale (right hdg) (sx + 2) + hdg))"

text \<open>
  The two writing loops (fill with rock, dig out the inside) have one shape: apply a tile
  mutator to \<open>pos\<close>, step \<open>pos\<close> by \<open>heading.right()\<close>; after a row of \<open>w\<close> cells go back
  \<open>w\<close> steps and one step along \<open>heading\<close>.
\<close>

fun tile_row :: "(world \<Rightarrow> Vector \<Rightarrow> error + world) \<Rightarrow> Vector \<Rightarrow> nat \<Rightarrow> world \<Rightarrow> Vector
    \<Rightarrow> error + (world \<times> Vector)" where
  "tile_row f hdg 0 st pos = Inr (st, pos)"
| "tile_row f hdg (Suc n) st pos =
     (case f st pos of Inl e \<Rightarrow> Inl e
      | Inr st' \<Rightarrow> tile_row f hdg n st' (pos + right hdg))"

fun tile_rows :: "(world \<Rightarrow> Vector \<Rightarrow> error + world) \<Rightarrow> Vector \<Rightarrow> int \<Rightarrow> nat \<Rightarrow> world \<Rightarrow> Vector
    \<Rightarrow> error + world" where
  "tile_rows f hdg w 0 st pos = Inr st"
| "tile_rows f hdg w (Suc m) st pos =
     (case tile_row f hdg (nat w) st pos of Inl e \<Rightarrow> Inl e
      | Inr (st', pos') \<Rightarrow> tile_rows f hdg w m st' (pos' - scale (right hdg) w + hdg))"

text \<open>The commit of a room: rock, permawall corners, inside, door.\<close>

definition room_commit :: "world \<Rightarrow> Vector \<Rightarrow> Vector \<Rightarrow> Vector \<Rightarrow> int \<Rightarrow> int \<Rightarrow> error + world" where
  "room_commit st entrance hdg corner sx sy =
     (case tile_rows fill_tile hdg (sx + 2) (nat (sy + 2)) st corner of Inl e \<Rightarrow> Inl e
      | Inr st1 \<Rightarrow>
     (case permawall_tile st1 corner of Inl e \<Rightarrow> Inl e
      | Inr st2 \<Rightarrow>
     (case permawall_tile st2 (corner + scale (right hdg) (sx + 1)) of Inl e \<Rightarrow> Inl e
      | Inr st3 \<Rightarrow>
     (case permawall_tile st3 (corner + scale hdg (sy + 1)) of Inl e \<Rightarrow> Inl e
      | Inr st4 \<Rightarrow>
     (case permawall_tile st4 (corner + scale (right hdg) (sx + 1) + scale hdg (sy + 1)) of
        Inl e \<Rightarrow> Inl e
      | Inr st5 \<Rightarrow>
     (case tile_rows dig_tile hdg sx (nat sy) st5 (corner + hdg + right hdg) of Inl e \<Rightarrow> Inl e
      | Inr st6 \<Rightarrow> door_tile st6 entrance))))))"

text \<open>The three connections that a placed room pushes on \<open>doorways\<close>.\<close>

definition room_doorways :: "world \<Rightarrow> Vector \<Rightarrow> Vector \<Rightarrow> int \<Rightarrow> int \<Rightarrow> world" where
  "room_doorways st hdg corner sx sy =
     (let (r1, st1) = rand_range st 1 sy;
          st2 = push_back st1
            \<lparr>location = corner + scale hdg r1, heading = left hdg, has_door = True\<rparr>;
          (r2, st3) = rand_range st2 1 sx;
          st4 = push_back st3
            \<lparr>location = corner + scale hdg (sy + 1) + scale (right hdg) r2, heading = hdg,
             has_door = True\<rparr>;
          (r3, st5) = rand_range st4 1 sy
      in push_back st5
            \<lparr>location = corner + scale (right hdg) (sx + 1) + scale hdg r3, heading = right hdg,
             has_door = True\<rparr>)"

definition dig_room :: "world \<Rightarrow> Vector \<Rightarrow> Vector \<Rightarrow> error + (bool \<times> world)" where
  "dig_room st entrance hdg =
     (let (sx, st1) = rand_range st 3 6;
          (sy, st2) = rand_range st1 3 6;
          (entrance_offset, st3) = rand_range st2 1 sx;
          corner = entrance + scale (left hdg) entrance_offset
      in case room_check st3 entrance hdg sx (nat (sy + 2)) corner of Inl e \<Rightarrow> Inl e
         | Inr False \<Rightarrow> Inr (False, st3)
         | Inr True \<Rightarrow>
             (case room_commit st3 entrance hdg corner sx sy of Inl e \<Rightarrow> Inl e
              | Inr st4 \<Rightarrow> Inr (True, room_doorways st4 hdg corner sx sy)))"

section \<open>dig_corridor\<close>

text \<open>
  The checking loop, at iteration \<open>ii\<close> with \<open>n\<close> iterations left. \<open>None\<close> is the
  \<open>return 0\<close>; \<open>Some (length, found_intersect)\<close> are the two variables after the loop.
  The three conditions joined by \<open>||\<close> are read left to right.
\<close>

fun corridor_check :: "world \<Rightarrow> Vector \<Rightarrow> int \<Rightarrow> nat \<Rightarrow> Vector \<Rightarrow> Vector \<Rightarrow> Vector
    \<Rightarrow> error + (int \<times> bool) option" where
  "corridor_check st hdg ii 0 pos left_pos right_pos = Inr (Some (ii, False))"
| "corridor_check st hdg ii (Suc n) pos left_pos right_pos =
     (if \<not> is_in_bounds st (pos + hdg) then Inr None
      else case is_wall st (pos + hdg) of Inl e \<Rightarrow> Inl e
        | Inr w \<Rightarrow>
            if \<not> w then Inr (Some (ii, True))
            else (case is_wall st (left_pos + hdg) of Inl e \<Rightarrow> Inl e
              | Inr wl \<Rightarrow>
                  if \<not> wl then Inr None
                  else (case is_wall st (right_pos + hdg) of Inl e \<Rightarrow> Inl e
                    | Inr wr \<Rightarrow>
                        if \<not> wr then Inr None
                        else (case is_permawall st (pos + hdg) of Inl e \<Rightarrow> Inl e
                          | Inr p \<Rightarrow>
                              if p then Inr None
                              else corridor_check st hdg (ii + 1) n
                                     (pos + hdg) (left_pos + hdg) (right_pos + hdg)))))"

text \<open>The digging loop with \<open>n\<close> iterations left; it returns the state and \<open>pos\<close>.\<close>

fun corridor_carve :: "Vector \<Rightarrow> nat \<Rightarrow> world \<Rightarrow> Vector \<Rightarrow> Vector \<Rightarrow> Vector
    \<Rightarrow> error + (world \<times> Vector)" where
  "corridor_carve hdg 0 st pos left_pos right_pos = Inr (st, pos)"
| "corridor_carve hdg (Suc n) st pos left_pos right_pos =
     (case dig_tile st (pos + hdg) of Inl e \<Rightarrow> Inl e
      | Inr st1 \<Rightarrow>
     (case fill_tile st1 (left_pos + hdg) of Inl e \<Rightarrow> Inl e
      | Inr st2 \<Rightarrow>
     (case fill_tile st2 (right_pos + hdg) of Inl e \<Rightarrow> Inl e
      | Inr st3 \<Rightarrow>
          if \<not> is_in_bounds st3 (pos + hdg + hdg) then Inr (st3, pos + hdg)
          else (case is_wall st3 (pos + hdg + hdg) of Inl e \<Rightarrow> Inl e
            | Inr w \<Rightarrow>
                if \<not> w then Inr (st3, pos + hdg)
                else corridor_carve hdg n st3 (pos + hdg) (left_pos + hdg) (right_pos + hdg)))))"

text \<open>The end of the corridor: seal it and push a doorway, or put a door.\<close>

definition corridor_end :: "world \<Rightarrow> Vector \<Rightarrow> Vector \<Rightarrow> error + world" where
  "corridor_end st hdg pos =
     (if \<not> is_in_bounds st (pos + hdg)
      then (case fill_tile st pos of Inl e \<Rightarrow> Inl e
            | Inr st1 \<Rightarrow>
                Inr (push_back st1 \<lparr>location = pos, heading = hdg, has_door = False\<rparr>))
      else (case is_wall st (pos + hdg) of Inl e \<Rightarrow> Inl e
            | Inr w \<Rightarrow>
                if w
                then (case fill_tile st pos of Inl e \<Rightarrow> Inl e
                      | Inr st1 \<Rightarrow>
                          Inr (push_back st1 \<lparr>location = pos, heading = hdg, has_door = False\<rparr>))
                else door_tile st pos))"

definition dig_corridor :: "world \<Rightarrow> Vector \<Rightarrow> Vector \<Rightarrow> error + (bool \<times> world)" where
  "dig_corridor st entrance hdg =
     (let (len0, st1) = rand_range st 2 6
      in case corridor_check st1 hdg 0 (nat len0) entrance (entrance + left hdg)
                (entrance + right hdg) of
           Inl e \<Rightarrow> Inl e
         | Inr None \<Rightarrow> Inr (False, st1)
         | Inr (Some (len, found_intersect)) \<Rightarrow>
             if len \<le> 1 then Inr (False, st1)
             else if \<not> found_intersect then Inr (False, st1)
             else (case corridor_carve hdg (nat len) st1 entrance (entrance + left hdg)
                          (entrance + right hdg) of
                     Inl e \<Rightarrow> Inl e
                   | Inr (st2, pos) \<Rightarrow>
                       (case corridor_end st2 hdg pos of Inl e \<Rightarrow> Inl e
                        | Inr st3 \<Rightarrow> Inr (True, st3))))"

section \<open>dig_random and dig_loop\<close>

text \<open>The retry loop with \<open>n\<close> tries left.\<close>

fun dig_random :: "nat \<Rightarrow> world \<Rightarrow> Vector \<Rightarrow> Vector \<Rightarrow> error + (bool \<times> world)" where
  "dig_random 0 st pos hdg = Inr (False, st)"
| "dig_random (Suc n) st pos hdg =
     (let (c, st1) = rand_range st 0 1
      in case (if c = 1 then dig_corridor st1 pos hdg else dig_room st1 pos hdg) of
           Inl e \<Rightarrow> Inl e
         | Inr (success, st2) \<Rightarrow>
             if success then Inr (True, st2) else dig_random n st2 pos hdg)"

text \<open>\<open>init_map\<close>: \<open>size_y\<close> rows of \<open>size_x\<close> cells, all unknown.\<close>

definition init_map :: "int \<Rightarrow> int \<Rightarrow> (nat \<Rightarrow> nat) \<Rightarrow> world" where
  "init_map sx sy rnd =
     \<lparr>grid = (\<lambda>v. if 0 \<le> vx v \<and> vx v < sx \<and> 0 \<le> vy v \<and> vy v < sy
                  then Some TILE_UNKNOWN else None),
      size_x = sx, size_y = sy, doorways = [], rand_src = rnd, rand_calls = 0\<rparr>"

text \<open>
  The statements of \<open>dig_loop\<close> before the \<open>while\<close>. \<open>size_x/2\<close> is \<open>div\<close> for the
  sizes that \<open>init_map\<close> can allocate.
\<close>

definition dig_seed :: "world \<Rightarrow> error + world" where
  "dig_seed st =
     (let entrance = Vector (size_x st div 2) (size_y st - 1);
          st1 = push_back st \<lparr>location = entrance, heading = Vector 0 (-1), has_door = True\<rparr>
      in case door_tile st1 entrance of Inl e \<Rightarrow> Inl e
         | Inr st2 \<Rightarrow>
        (case fill_tile st2 (entrance + Vector 1 0) of Inl e \<Rightarrow> Inl e
         | Inr st3 \<Rightarrow> fill_tile st3 (entrance - Vector 1 0)))"

definition erase :: "'a list \<Rightarrow> nat \<Rightarrow> 'a list" where
  "erase xs i = take i xs @ drop (Suc i) xs"

text \<open>
  One iteration of the \<open>while\<close> loop. An index past the end of the vector is undefined
  behaviour in the source and \<open>OutOfBounds\<close> here.
\<close>

definition dig_step :: "world \<Rightarrow> error + world" where
  "dig_step st =
     (let (which, st1) = rand_range st 0 (int (length (doorways st)) - 1)
      in if \<not> nat which < length (doorways st1) then Inl OutOfBounds
         else
           let door = doorways st1 ! nat which;
               st2 = st1\<lparr>doorways := erase (doorways st1) (nat which)\<rparr>
           in case dig_random max_tries st2 (location door) (heading door) of Inl e \<Rightarrow> Inl e
              | Inr (success, st3) \<Rightarrow>
                  if success
                  then (if has_door door then door_tile st3 (location door)
                        else (case is_wall st3 (location door) of Inl e \<Rightarrow> Inl e
                              | Inr w \<Rightarrow> if w then dig_tile st3 (location door) else Inr st3))
                  else Inr st3)"

text \<open>The \<open>while\<close> loop; \<open>None\<close> stands for a loop that does not end.\<close>

partial_function (option) dig_drain :: "world \<Rightarrow> (error + world) option" where
  "dig_drain st =
     (if doorways st = [] then Some (Inr st)
      else case dig_step st of Inl e \<Rightarrow> Some (Inl e) | Inr st' \<Rightarrow> dig_drain st')"

definition dig_loop :: "world \<Rightarrow> (error + world) option" where
  "dig_loop st = (case dig_seed st of Inl e \<Rightarrow> Some (Inl e) | Inr st' \<Rightarrow> dig_drain st')"

section \<open>Predicates of the statements\<close>

text \<open>
  The definitions below are not code of the program. They say what the statements and the
  proofs talk about: which states are well formed, which cells a placement covers, which
  numbers it draws, and what the grid looks like after it.

  \<open>grid_ok\<close>: the allocated cells are exactly those of the \<open>size_x\<close> by \<open>size_y\<close>
  rectangle, as \<open>init_map\<close> leaves them. \<open>wall_at\<close> is the test of \<open>is_wall\<close> on an
  allocated cell, and \<open>open_at\<close> says that a cell is floor or door.
\<close>

definition grid_ok :: "world \<Rightarrow> bool" where
  "grid_ok st = (\<forall>v. (grid st v \<noteq> None) = is_in_bounds_or_border st v)"

definition wall_at :: "world \<Rightarrow> Vector \<Rightarrow> bool" where
  "wall_at st v = (case grid st v of None \<Rightarrow> False | Some t \<Rightarrow> wallish t)"

definition open_at :: "world \<Rightarrow> Vector \<Rightarrow> bool" where
  "open_at st v = (grid st v = Some TILE_FLOOR \<or> grid st v = Some TILE_DOOR)"

text \<open>
  \<open>rect corner hdg w d\<close> is the rectangle that the loops of \<open>dig_room\<close> walk: \<open>w\<close> cells
  along \<open>heading.right()\<close> and \<open>d\<close> cells along \<open>heading\<close>, from \<open>corner\<close>. \<open>paint\<close> writes
  one tile on a set of cells.
\<close>

definition paint :: "Vector set \<Rightarrow> tile \<Rightarrow> (Vector \<Rightarrow> tile option) \<Rightarrow> Vector \<Rightarrow> tile option" where
  "paint S t G = (\<lambda>v. if v \<in> S then Some t else G v)"

definition spot :: "Vector \<Rightarrow> Vector \<Rightarrow> int \<Rightarrow> int \<Rightarrow> Vector" where
  "spot corner hdg i j = corner + scale (right hdg) i + scale hdg j"

definition rect :: "Vector \<Rightarrow> Vector \<Rightarrow> int \<Rightarrow> int \<Rightarrow> Vector set" where
  "rect corner hdg w d = {v. \<exists>i j. 0 \<le> i \<and> i < w \<and> 0 \<le> j \<and> j < d \<and> v = spot corner hdg i j}"

text \<open>
  The numbers that \<open>dig_room\<close> draws from the state it is called in (\<open>size.x\<close>, \<open>size.y\<close>,
  \<open>entrance_offset\<close>), its corner, and the feasibility of its footprint in the words of
  the specification: every cell of the outer rectangle is inside the grid, and is
  wall-like or the entrance. \<open>room_grid\<close> is the grid after the commit.
\<close>

definition cell_ok :: "world \<Rightarrow> Vector \<Rightarrow> Vector \<Rightarrow> bool" where
  "cell_ok st entrance v = (is_in_bounds_or_border st v \<and> (wall_at st v \<or> v = entrance))"

definition room_sx :: "world \<Rightarrow> int" where
  "room_sx st = int (rand_src st (rand_calls st)) mod 4 + 3"

definition room_sy :: "world \<Rightarrow> int" where
  "room_sy st = int (rand_src st (Suc (rand_calls st))) mod 4 + 3"

definition room_off :: "world \<Rightarrow> int" where
  "room_off st = int (rand_src st (Suc (Suc (rand_calls st)))) mod room_sx st + 1"

definition room_corner :: "world \<Rightarrow> Vector \<Rightarrow> Vector \<Rightarrow> Vector" where
  "room_corner st entrance hdg = entrance + scale (left hdg) (room_off st)"

definition room_fits :: "world \<Rightarrow> Vector \<Rightarrow> Vector \<Rightarrow> bool" where
  "room_fits st entrance hdg =
     (\<forall>v \<in> rect (room_corner st entrance hdg) hdg (room_sx st + 2) (room_sy st + 2).
        cell_ok st entrance v)"

definition room_grid :: "(Vector \<Rightarrow> tile option) \<Rightarrow> Vector \<Rightarrow> Vector \<Rightarrow> Vector \<Rightarrow> int \<Rightarrow> int
    \<Rightarrow> Vector \<Rightarrow> tile option" where
  "room_grid G entrance hdg corner sx sy =
     (paint (rect (corner + hdg + right hdg) hdg sx sy) TILE_FLOOR
        ((paint (rect corner hdg (sx + 2) (sy + 2)) TILE_WALL G)
           (corner \<mapsto> TILE_PERMAWALL,
            corner + scale (right hdg) (sx + 1) \<mapsto> TILE_PERMAWALL,
            corner + scale hdg (sy + 1) \<mapsto> TILE_PERMAWALL,
            corner + scale (right hdg) (sx + 1) + scale hdg (sy + 1) \<mapsto> TILE_PERMAWALL)))
     (entrance \<mapsto> TILE_DOOR)"

text \<open>
  \<open>drawn st k\<close> is \<open>st\<close> after \<open>k\<close> calls of \<open>rand()\<close>. \<open>corridor_len\<close> is the length
  that \<open>dig_corridor\<close> draws. A cell is \<open>clear\<close> when the checking loop of \<open>dig_corridor\<close>
  passes it as a centre cell. \<open>on_path\<close> and \<open>on_flank\<close> are the centre and flank cells
  of the first \<open>n\<close> steps, and \<open>carve_grid\<close> is the grid after \<open>n\<close> iterations of the
  digging loop.
\<close>

definition drawn :: "world \<Rightarrow> nat \<Rightarrow> world" where
  "drawn st k = st\<lparr>rand_calls := rand_calls st + k\<rparr>"

definition corridor_len :: "world \<Rightarrow> int" where
  "corridor_len st = int (rand_src st (rand_calls st)) mod 5 + 2"

definition clear :: "world \<Rightarrow> Vector \<Rightarrow> Vector \<Rightarrow> bool" where
  "clear st hdg v =
     (is_in_bounds st v \<and> wall_at st v \<and> wall_at st (v + left hdg) \<and> wall_at st (v + right hdg)
      \<and> grid st v \<noteq> Some TILE_PERMAWALL)"

fun carve_grid :: "(Vector \<Rightarrow> tile option) \<Rightarrow> Vector \<Rightarrow> Vector \<Rightarrow> nat \<Rightarrow> Vector \<Rightarrow> tile option" where
  "carve_grid G pos hdg 0 = G"
| "carve_grid G pos hdg (Suc n) =
     carve_grid (G(pos + hdg \<mapsto> TILE_FLOOR, pos + hdg + left hdg \<mapsto> TILE_WALL,
                   pos + hdg + right hdg \<mapsto> TILE_WALL)) (pos + hdg) hdg n"

definition on_path :: "Vector \<Rightarrow> Vector \<Rightarrow> nat \<Rightarrow> Vector \<Rightarrow> bool" where
  "on_path pos hdg n v = (\<exists>k. 1 \<le> k \<and> k \<le> n \<and> v = pos + scale hdg (int k))"

definition on_flank :: "Vector \<Rightarrow> Vector \<Rightarrow> nat \<Rightarrow> Vector \<Rightarrow> bool" where
  "on_flank pos hdg n v =
     (\<exists>k. 1 \<le> k \<and> k \<le> n
        \<and> (v = pos + scale hdg (int k) + left hdg \<or> v = pos + scale hdg (int k) + right hdg))"

text \<open>The three doorways of a placed room, from the three numbers drawn for them.\<close>

definition door_draw :: "world \<Rightarrow> nat \<Rightarrow> int \<Rightarrow> int" where
  "door_draw st k n = int (rand_src st (rand_calls st + k)) mod n + 1"

definition room_doors :: "world \<Rightarrow> Vector \<Rightarrow> Vector \<Rightarrow> int \<Rightarrow> int \<Rightarrow> Doorway list" where
  "room_doors st hdg corner sx sy =
     [\<lparr>location = corner + scale hdg (door_draw st 0 sy), heading = left hdg, has_door = True\<rparr>,
      \<lparr>location = corner + scale hdg (sy + 1) + scale (right hdg) (door_draw st 1 sx),
       heading = hdg, has_door = True\<rparr>,
      \<lparr>location = corner + scale (right hdg) (sx + 1) + scale hdg (door_draw st 2 sy),
       heading = right hdg, has_door = True\<rparr>]"

text \<open>
  The invariant of the loop. \<open>entrance0\<close> is the cell where \<open>dig_loop\<close> starts. A doorway
  is \<open>door_ok\<close> when its heading is a unit vector, it lies in the grid, and it lies
  strictly inside, or faces out of the grid, or is the first entrance. \<open>grows st e st'\<close>
  collects what a successful placement at \<open>e\<close> does: no open cell is closed, at least one
  wall-like cell is opened, every newly opened cell is strictly inside the grid or is
  \<open>e\<close>, and at most three doorways are appended. \<open>walls\<close> counts the wall-like cells.
  \<open>reach st0 st\<close>: \<open>st\<close> is \<open>st0\<close> after some iterations of the loop of \<open>dig_loop\<close>.
\<close>

definition entrance0 :: "world \<Rightarrow> Vector" where
  "entrance0 st = Vector (size_x st div 2) (size_y st - 1)"

definition door_ok :: "world \<Rightarrow> Doorway \<Rightarrow> bool" where
  "door_ok st d =
     (is_dir (heading d) \<and> is_in_bounds_or_border st (location d)
      \<and> (is_in_bounds st (location d)
          \<or> \<not> is_in_bounds_or_border st (location d + heading d)
          \<or> location d = entrance0 st))"

definition grows :: "world \<Rightarrow> Vector \<Rightarrow> world \<Rightarrow> bool" where
  "grows st e st' =
     (size_x st' = size_x st \<and> size_y st' = size_y st \<and> rand_src st' = rand_src st
      \<and> grid_ok st'
      \<and> (\<forall>v. open_at st v \<longrightarrow> open_at st' v)
      \<and> (\<exists>v. wall_at st v \<and> open_at st' v)
      \<and> (\<forall>v. open_at st' v \<and> \<not> open_at st v \<longrightarrow> is_in_bounds st v \<or> v = e)
      \<and> (\<exists>ds. doorways st' = doorways st @ ds \<and> length ds \<le> 3 \<and> (\<forall>d \<in> set ds. door_ok st d)))"

definition walls :: "world \<Rightarrow> nat" where
  "walls st = card {v. wall_at st v}"

definition inv :: "world \<Rightarrow> bool" where
  "inv st =
     (grid_ok st \<and> (\<forall>d \<in> set (doorways st). door_ok st d)
      \<and> (\<forall>v. open_at st v \<longrightarrow> is_in_bounds st v \<or> v = entrance0 st))"

inductive reach :: "world \<Rightarrow> world \<Rightarrow> bool" for st0 :: world where
  start: "reach st0 st0"
| step: "reach st0 st \<Longrightarrow> doorways st \<noteq> [] \<Longrightarrow> dig_step st = Inr st' \<Longrightarrow> reach st0 st'"

definition on_border :: "int \<Rightarrow> int \<Rightarrow> Vector \<Rightarrow> bool" where
  "on_border w h v =
     (0 \<le> vx v \<and> vx v < w \<and> 0 \<le> vy v \<and> vy v < h
      \<and> (vx v = 0 \<or> vx v = w - 1 \<or> vy v = 0 \<or> vy v = h - 1))"

text \<open>
  \<open>dig_steps n st\<close> is the loop of \<open>dig_loop\<close> cut off after \<open>n\<close> iterations: the state in
  which the loop ends when it ends within \<open>n\<close> iterations, and the state after \<open>n\<close>
  iterations otherwise.
\<close>

fun dig_steps :: "nat \<Rightarrow> world \<Rightarrow> error + world" where
  "dig_steps 0 st = Inr st"
| "dig_steps (Suc n) st =
     (if doorways st = [] then Inr st
      else case dig_step st of Inl e \<Rightarrow> Inl e | Inr st' \<Rightarrow> dig_steps n st')"

text \<open>
  A sequence of values of \<open>rand()\<close> for a run on a 14 by 11 grid; every later call
  returns 1.
\<close>

definition run14 :: "nat list" where
  "run14 = [8, 4, 0, 4, 9, 6, 8, 0, 6, 3, 0, 4, 1, 8, 2, 11, 0, 2, 5, 0, 2, 8, 11, 3, 2, 9, 11, 11,
     9, 10, 1, 9, 9, 0, 7, 5, 2, 2, 8, 1, 6, 2, 0, 4, 1, 1, 10, 7, 7, 11, 1, 1, 9, 11, 6, 11, 7,
     11, 5, 8, 7, 3, 9, 4, 1, 10, 0, 0, 4, 8, 3, 6, 3, 1, 3, 9, 1, 6, 0, 4, 4, 7, 0, 4, 11, 5, 6,
     4, 4, 3, 9]"

section \<open>Vector arithmetic\<close>

lemma Vector_eq_iff: "a = b \<longleftrightarrow> vx a = vx b \<and> vy a = vy b"
  by (cases a, cases b) simp

lemma vx_plus [simp]: "vx (a + b) = vx a + vx b"
  by (simp add: plus_Vector_def)

lemma vy_plus [simp]: "vy (a + b) = vy a + vy b"
  by (simp add: plus_Vector_def)

lemma vx_minus [simp]: "vx (a - b) = vx a - vx b"
  by (simp add: minus_Vector_def)

lemma vy_minus [simp]: "vy (a - b) = vy a - vy b"
  by (simp add: minus_Vector_def)

lemma vx_scale [simp]: "vx (scale v n) = vx v * n"
  by (simp add: scale_def)

lemma vy_scale [simp]: "vy (scale v n) = vy v * n"
  by (simp add: scale_def)

lemma vx_left [simp]: "vx (left v) = vy v"
  by (simp add: left_def)

lemma vy_left [simp]: "vy (left v) = - vx v"
  by (simp add: left_def)

lemma vx_right [simp]: "vx (right v) = - vy v"
  by (simp add: right_def)

lemma vy_right [simp]: "vy (right v) = vx v"
  by (simp add: right_def)

lemma is_dir_cases:
  "is_dir v \<longleftrightarrow> (vx v = 0 \<and> vy v = -1) \<or> (vx v = 0 \<and> vy v = 1)
     \<or> (vx v = -1 \<and> vy v = 0) \<or> (vx v = 1 \<and> vy v = 0)"
  by (cases v) (simp add: is_dir_def)

lemma is_dir_left: "is_dir v \<Longrightarrow> is_dir (left v)"
  by (auto simp: is_dir_cases)

lemma is_dir_right: "is_dir v \<Longrightarrow> is_dir (right v)"
  by (auto simp: is_dir_cases)

lemma left_right_id: "left (right v) = v"
  by (simp add: Vector_eq_iff)

lemma right_left_id: "right (left v) = v"
  by (simp add: Vector_eq_iff)

section \<open>Rotations (C9)\<close>

text \<open>
  C9. \<open>right\<close> maps \<open>(x, y)\<close> to \<open>(-y, x)\<close> and \<open>left\<close> maps \<open>(x, y)\<close> to \<open>(y, -x)\<close>.
  Each undoes the other, four applications of either are the identity, and each is a
  bijection of the set of the four cardinal unit vectors onto itself, so a unit vector is
  never sent to a vector that is not one.
\<close>

theorem rotations_exact:
  "right (Vector a b) = Vector (- b) a
   \<and> left (Vector a b) = Vector b (- a)
   \<and> left (right v) = v \<and> right (left v) = v
   \<and> right (right (right (right v))) = v
   \<and> left (left (left (left v))) = v
   \<and> bij_betw left {d. is_dir d} {d. is_dir d}
   \<and> bij_betw right {d. is_dir d} {d. is_dir d}"
proof -
  have l: "bij_betw left {d. is_dir d} {d. is_dir d}"
  proof (rule bij_betw_byWitness [where f' = right])
    show "\<forall>d\<in>{d. is_dir d}. right (left d) = d"
      by (simp add: right_left_id)
    show "\<forall>d\<in>{d. is_dir d}. left (right d) = d"
      by (simp add: left_right_id)
    show "left ` {d. is_dir d} \<subseteq> {d. is_dir d}"
      by (auto intro: is_dir_left)
    show "right ` {d. is_dir d} \<subseteq> {d. is_dir d}"
      by (auto intro: is_dir_right)
  qed
  have r: "bij_betw right {d. is_dir d} {d. is_dir d}"
  proof (rule bij_betw_byWitness [where f' = left])
    show "\<forall>d\<in>{d. is_dir d}. left (right d) = d"
      by (simp add: left_right_id)
    show "\<forall>d\<in>{d. is_dir d}. right (left d) = d"
      by (simp add: right_left_id)
    show "right ` {d. is_dir d} \<subseteq> {d. is_dir d}"
      by (auto intro: is_dir_right)
    show "left ` {d. is_dir d} \<subseteq> {d. is_dir d}"
      by (auto intro: is_dir_left)
  qed
  show ?thesis
    using l r by (simp add: Vector_eq_iff)
qed

section \<open>Seeding (C8, C6)\<close>

text \<open>
  C8. On a 20 by 20 grid the statements before the loop succeed and leave exactly this
  state: the cell (10, 19) is a door, the cells (11, 19) and (9, 19) are wall, every other
  cell is as \<open>init_map\<close> left it (unknown), and \<open>doorways\<close> holds the one entrance
  doorway at (10, 19), heading (0, -1), with a door.
\<close>

theorem seeding_20_20:
  "dig_seed (init_map 20 20 rnd) =
     Inr ((init_map 20 20 rnd)
       \<lparr>grid := (grid (init_map 20 20 rnd))
          (Vector 10 19 \<mapsto> TILE_DOOR, Vector 11 19 \<mapsto> TILE_WALL, Vector 9 19 \<mapsto> TILE_WALL),
        doorways := [\<lparr>location = Vector 10 19, heading = Vector 0 (- 1), has_door = True\<rparr>]\<rparr>)"
  by (simp add: dig_seed_def init_map_def push_back_def door_tile_def fill_tile_def
      grid_write_def plus_Vector_def minus_Vector_def Let_def)

text \<open>
  C6. The statements before the loop write the two neighbours of the entrance with no
  bounds check. On a 1 by 1 grid the entrance is (0, 0) and \<open>fill_tile\<close> is called on
  (1, 0), which is outside the allocation.
\<close>

theorem seeding_1_1_out_of_bounds:
  "dig_loop (init_map 1 1 rnd) = Some (Inl OutOfBounds)"
  by (simp add: dig_loop_def dig_seed_def init_map_def push_back_def door_tile_def fill_tile_def
      grid_write_def plus_Vector_def minus_Vector_def Let_def)

section \<open>The loops of dig_room in closed form\<close>

lemma grid_write_ok:
  "grid st v \<noteq> None \<Longrightarrow> grid_write st v t = Inr (st\<lparr>grid := (grid st)(v \<mapsto> t)\<rparr>)"
  by (auto simp: grid_write_def)

lemma grid_write_Inr:
  "grid_write st v t = Inr st' \<Longrightarrow> grid st v \<noteq> None \<and> st' = st\<lparr>grid := (grid st)(v \<mapsto> t)\<rparr>"
  by (auto simp: grid_write_def split: option.splits)

lemma is_wall_ok: "grid st v \<noteq> None \<Longrightarrow> is_wall st v = Inr (wall_at st v)"
  by (auto simp: is_wall_def grid_read_def wall_at_def)

lemma is_permawall_ok:
  "grid st v \<noteq> None \<Longrightarrow> is_permawall st v = Inr (grid st v = Some TILE_PERMAWALL)"
  by (auto simp: is_permawall_def grid_read_def)

lemma scale_Suc: "scale d (int (Suc n)) = scale d (int n) + d"
  by (simp add: Vector_eq_iff algebra_simps)

lemma scale_Suc': "p + d + scale d (int n) = p + scale d (int (Suc n))"
  by (simp add: Vector_eq_iff algebra_simps)

lemma scale_cancel: "p + scale d k - scale d k + h = p + h"
  by (simp add: Vector_eq_iff)

lemma scale_0: "p + scale d 0 = p"
  by (simp add: Vector_eq_iff)

lemma tile_row_write:
  assumes f: "\<And>s v. f s v = grid_write s v t"
  shows "\<forall>i<n. grid st (pos + scale (right h) (int i)) \<noteq> None \<Longrightarrow>
    tile_row f h n st pos =
      Inr (st\<lparr>grid := paint {v. \<exists>i<n. v = pos + scale (right h) (int i)} t (grid st)\<rparr>,
           pos + scale (right h) (int n))"
proof (induction n arbitrary: st pos)
  case 0
  then show ?case by (simp add: paint_def scale_0)
next
  case (Suc n)
  from Suc.prems have a0: "grid st pos \<noteq> None"
    using scale_0 [of pos "right h"] by (metis of_nat_0 zero_less_Suc)
  let ?st1 = "st\<lparr>grid := (grid st)(pos \<mapsto> t)\<rparr>"
  have w: "f st pos = Inr ?st1"
    using a0 by (simp add: f grid_write_ok)
  have pre: "\<forall>i<n. grid ?st1 (pos + right h + scale (right h) (int i)) \<noteq> None"
    using Suc.prems by (auto simp: scale_Suc')
  have G: "paint {v. \<exists>i<n. v = pos + scale (right h) (int (Suc i))} t ((grid st)(pos \<mapsto> t))
      = paint {v. \<exists>i<Suc n. v = pos + scale (right h) (int i)} t (grid st)"
    by (auto simp: paint_def fun_eq_iff less_Suc_eq_0_disj scale_0 simp del: of_nat_Suc)
  have e1: "grid ?st1 = (grid st)(pos \<mapsto> t)"
    by simp
  have e2: "\<And>X. ?st1\<lparr>grid := X\<rparr> = st\<lparr>grid := X\<rparr>"
    by simp
  have "tile_row f h (Suc n) st pos = tile_row f h n ?st1 (pos + right h)"
    by (simp only: tile_row.simps w sum.case)
  then show ?case
    by (simp only: Suc.IH [OF pre] e1 e2 G scale_Suc')
qed

lemma paint_paint: "paint S t (paint S' t G) = paint (S \<union> S') t G"
  by (auto simp: paint_def fun_eq_iff)

lemma paint_alloc: "paint S t G v \<noteq> None \<longleftrightarrow> v \<in> S \<or> G v \<noteq> None"
  by (simp add: paint_def)

lemma tile_rows_write:
  assumes f: "\<And>s v. f s v = grid_write s v t" and w: "0 \<le> w"
  shows "\<forall>j<m. \<forall>i<nat w. grid st (pos + scale (right h) (int i) + scale h (int j)) \<noteq> None \<Longrightarrow>
    tile_rows f h w m st pos =
      Inr (st\<lparr>grid := paint {v. \<exists>i j. i < nat w \<and> j < m
                \<and> v = pos + scale (right h) (int i) + scale h (int j)} t (grid st)\<rparr>)"
proof (induction m arbitrary: st pos)
  case 0
  have "paint {} t (grid st) = grid st"
    by (simp add: paint_def)
  then show ?case by simp
next
  case (Suc m)
  let ?R = "{v. \<exists>i<nat w. v = pos + scale (right h) (int i)}"
  let ?st1 = "st\<lparr>grid := paint ?R t (grid st)\<rparr>"
  have r0: "\<forall>i<nat w. grid st (pos + scale (right h) (int i)) \<noteq> None"
  proof (intro allI impI)
    fix i assume "i < nat w"
    with Suc.prems have "grid st (pos + scale (right h) (int i) + scale h (int 0)) \<noteq> None"
      by blast
    then show "grid st (pos + scale (right h) (int i)) \<noteq> None"
      by (simp add: scale_0)
  qed
  have row: "tile_row f h (nat w) st pos = Inr (?st1, pos + scale (right h) (int (nat w)))"
    by (rule tile_row_write [OF f r0])
  have bk: "pos + scale (right h) (int (nat w)) - scale (right h) w + h = pos + h"
    using w by (simp add: Vector_eq_iff)
  have pre: "\<forall>j<m. \<forall>i<nat w.
      grid ?st1 (pos + h + scale (right h) (int i) + scale h (int j)) \<noteq> None"
  proof (intro allI impI)
    fix j i assume "j < m" "i < nat w"
    with Suc.prems
    have "grid st (pos + scale (right h) (int i) + scale h (int (Suc j))) \<noteq> None"
      by (simp del: of_nat_Suc)
    moreover have "pos + scale (right h) (int i) + scale h (int (Suc j))
        = pos + h + scale (right h) (int i) + scale h (int j)"
      by (simp add: Vector_eq_iff algebra_simps)
    ultimately show "grid ?st1 (pos + h + scale (right h) (int i) + scale h (int j)) \<noteq> None"
      by (auto simp: paint_def)
  qed
  have S: "?R \<union> {v. \<exists>i j. i < nat w \<and> j < m \<and> v = pos + h + scale (right h) (int i) + scale h (int j)}
      = {v. \<exists>i j. i < nat w \<and> j < Suc m \<and> v = pos + scale (right h) (int i) + scale h (int j)}"
    (is "?A = ?B")
  proof (intro set_eqI iffI)
    fix v assume "v \<in> ?A"
    then consider i where "i < nat w" "v = pos + scale (right h) (int i)"
      | i j where "i < nat w" "j < m" "v = pos + h + scale (right h) (int i) + scale h (int j)"
      by blast
    then show "v \<in> ?B"
    proof cases
      case 1
      then have "v = pos + scale (right h) (int i) + scale h (int 0)"
        by (simp add: scale_0)
      with 1 show ?thesis by blast
    next
      case 2
      then have "v = pos + scale (right h) (int i) + scale h (int (Suc j))"
        by (simp add: Vector_eq_iff algebra_simps)
      with 2 show ?thesis by blast
    qed
  next
    fix v assume "v \<in> ?B"
    then obtain i j where ij: "i < nat w" "j < Suc m"
      "v = pos + scale (right h) (int i) + scale h (int j)"
      by blast
    show "v \<in> ?A"
    proof (cases j)
      case 0
      with ij have "v = pos + scale (right h) (int i)"
        by (simp add: scale_0)
      with ij show ?thesis by blast
    next
      case (Suc j')
      with ij have "v = pos + h + scale (right h) (int i) + scale h (int j')"
        by (simp add: Vector_eq_iff algebra_simps)
      moreover from Suc ij have "j' < m" by simp
      ultimately show ?thesis using ij by blast
    qed
  qed
  have e1: "grid ?st1 = paint ?R t (grid st)"
    by simp
  have e2: "\<And>X. ?st1\<lparr>grid := X\<rparr> = st\<lparr>grid := X\<rparr>"
    by simp
  have "tile_rows f h w (Suc m) st pos = tile_rows f h w m ?st1 (pos + h)"
    by (simp only: tile_rows.simps row sum.case prod.case bk)
  also have "\<dots> = Inr (?st1\<lparr>grid := paint {v. \<exists>i j. i < nat w \<and> j < m
                \<and> v = pos + h + scale (right h) (int i) + scale h (int j)} t (grid ?st1)\<rparr>)"
    by (rule Suc.IH [OF pre])
  finally show ?case
    by (simp only: e1 e2 paint_paint Un_commute [of _ ?R] S)
qed

lemma room_check_row_eq:
  assumes ok: "grid_ok st"
  shows "room_check_row st e h n pos =
    Inr (if \<forall>i<n. cell_ok st e (pos + scale (right h) (int i))
         then Some (pos + scale (right h) (int n)) else None)"
proof (induction n arbitrary: pos)
  case 0
  then show ?case by (simp add: scale_0)
next
  case (Suc n)
  show ?case
  proof (cases "is_in_bounds_or_border st pos")
    case False
    then have "\<not> cell_ok st e (pos + scale (right h) (int 0))"
      by (simp add: cell_ok_def scale_0)
    then have "\<not> (\<forall>i<Suc n. cell_ok st e (pos + scale (right h) (int i)))"
      by blast
    with False show ?thesis by simp
  next
    case True
    then have al: "grid st pos \<noteq> None"
      using ok by (simp add: grid_ok_def)
    have c0: "cell_ok st e pos \<longleftrightarrow> wall_at st pos \<or> pos = e"
      using True by (simp add: cell_ok_def)
    have all: "(\<forall>i<Suc n. cell_ok st e (pos + scale (right h) (int i)))
        \<longleftrightarrow> cell_ok st e pos \<and> (\<forall>i<n. cell_ok st e (pos + right h + scale (right h) (int i)))"
      by (simp add: All_less_Suc2 scale_0 scale_Suc' del: of_nat_Suc)
    have step: "room_check_row st e h (Suc n) pos =
        (if \<not> cell_ok st e pos then Inr None else room_check_row st e h n (pos + right h))"
      using True by (simp add: is_wall_ok [OF al] c0)
    show ?thesis
      unfolding step Suc.IH all
      by (auto simp: scale_Suc' simp del: of_nat_Suc)
  qed
qed

lemma room_check_eq:
  assumes ok: "grid_ok st" and w: "0 \<le> sx + 2"
  shows "room_check st e h sx m pos =
    Inr (\<forall>j<m. \<forall>i<nat (sx + 2). cell_ok st e (pos + scale (right h) (int i) + scale h (int j)))"
proof (induction m arbitrary: pos)
  case 0
  then show ?case by simp
next
  case (Suc m)
  have bk: "pos + scale (right h) (int (nat (sx + 2))) - scale (right h) (sx + 2) + h = pos + h"
    using w by (simp add: Vector_eq_iff)
  have sh: "\<And>i j. pos + h + scale (right h) (int i) + scale h (int j)
      = pos + scale (right h) (int i) + scale h (int (Suc j))"
    by (simp add: Vector_eq_iff algebra_simps)
  have all: "(\<forall>j<Suc m. \<forall>i<nat (sx + 2). cell_ok st e (pos + scale (right h) (int i) + scale h (int j)))
     \<longleftrightarrow> (\<forall>i<nat (sx + 2). cell_ok st e (pos + scale (right h) (int i)))
       \<and> (\<forall>j<m. \<forall>i<nat (sx + 2). cell_ok st e (pos + h + scale (right h) (int i) + scale h (int j)))"
    by (simp add: All_less_Suc2 scale_0 sh del: of_nat_Suc)
  show ?case
    using w by (auto simp: room_check_row_eq [OF ok] Suc.IH scale_cancel all simp del: of_nat_Suc)
qed

lemma rect_iff:
  "v \<in> rect c h w d \<longleftrightarrow>
     (\<exists>i j. 0 \<le> i \<and> i < w \<and> 0 \<le> j \<and> j < d \<and> v = c + scale (right h) i + scale h j)"
  by (simp add: rect_def spot_def)

lemma rectI:
  "0 \<le> i \<Longrightarrow> i < w \<Longrightarrow> 0 \<le> j \<Longrightarrow> j < d \<Longrightarrow> v = c + scale (right h) i + scale h j
    \<Longrightarrow> v \<in> rect c h w d"
  by (auto simp: rect_iff)

lemma rect_nat:
  "{v. \<exists>i j. i < nat w \<and> j < nat d \<and> v = c + scale (right h) (int i) + scale h (int j)}
     = rect c h w d"
proof (intro set_eqI iffI)
  fix v assume "v \<in> {v. \<exists>i j. i < nat w \<and> j < nat d
      \<and> v = c + scale (right h) (int i) + scale h (int j)}"
  then obtain i j where "i < nat w" "j < nat d"
      "v = c + scale (right h) (int i) + scale h (int j)"
    by blast
  then show "v \<in> rect c h w d"
    by (intro rectI [of "int i" _ "int j"]) auto
next
  fix v assume "v \<in> rect c h w d"
  then obtain i j where ij: "0 \<le> i" "i < w" "0 \<le> j" "j < d"
      "v = c + scale (right h) i + scale h j"
    by (auto simp: rect_iff)
  then have "nat i < nat w \<and> nat j < nat d
      \<and> v = c + scale (right h) (int (nat i)) + scale h (int (nat j))"
    by simp
  then show "v \<in> {v. \<exists>i j. i < nat w \<and> j < nat d
      \<and> v = c + scale (right h) (int i) + scale h (int j)}"
    by blast
qed

lemma rect_all_nat:
  "(\<forall>j<nat d. \<forall>i<nat w. P (c + scale (right h) (int i) + scale h (int j)))
     \<longleftrightarrow> (\<forall>v \<in> rect c h w d. P v)"
  unfolding rect_nat [symmetric] by blast

lemma rect_inner:
  "rect (c + h + right h) h w d \<subseteq> rect c h (w + 2) (d + 2)"
proof
  fix v assume "v \<in> rect (c + h + right h) h w d"
  then obtain i j where ij: "0 \<le> i" "i < w" "0 \<le> j" "j < d"
      "v = c + h + right h + scale (right h) i + scale h j"
    by (auto simp: rect_iff)
  show "v \<in> rect c h (w + 2) (d + 2)"
    using ij by (intro rectI [of "i + 1" _ "j + 1"]) (auto simp: Vector_eq_iff algebra_simps)
qed

lemma rect_corners:
  assumes "0 \<le> w" "0 \<le> d"
  shows "c \<in> rect c h (w + 2) (d + 2)"
    and "c + scale (right h) (w + 1) \<in> rect c h (w + 2) (d + 2)"
    and "c + scale h (d + 1) \<in> rect c h (w + 2) (d + 2)"
    and "c + scale (right h) (w + 1) + scale h (d + 1) \<in> rect c h (w + 2) (d + 2)"
proof -
  show "c \<in> rect c h (w + 2) (d + 2)"
    using assms by (intro rectI [of 0 _ 0]) (auto simp: Vector_eq_iff)
  show "c + scale (right h) (w + 1) \<in> rect c h (w + 2) (d + 2)"
    using assms by (intro rectI [of "w + 1" _ 0]) (auto simp: Vector_eq_iff)
  show "c + scale h (d + 1) \<in> rect c h (w + 2) (d + 2)"
    using assms by (intro rectI [of 0 _ "d + 1"]) (auto simp: Vector_eq_iff)
  show "c + scale (right h) (w + 1) + scale h (d + 1) \<in> rect c h (w + 2) (d + 2)"
    using assms by (intro rectI [of "w + 1" _ "d + 1"]) (auto simp: Vector_eq_iff)
qed

lemma rect_entrance:
  assumes "1 \<le> k" "k \<le> w" "0 \<le> d"
  shows "e \<in> rect (e + scale (left h) k) h (w + 2) (d + 2)"
  using assms by (intro rectI [of k _ 0]) (auto simp: Vector_eq_iff)

lemma tile_rows_rect:
  assumes f: "\<And>s v. f s v = grid_write s v t" and w: "0 \<le> w" and d: "0 \<le> d"
    and al: "\<forall>v \<in> rect pos h w d. grid st v \<noteq> None"
  shows "tile_rows f h w (nat d) st pos = Inr (st\<lparr>grid := paint (rect pos h w d) t (grid st)\<rparr>)"
proof -
  have "\<forall>j<nat d. \<forall>i<nat w. grid st (pos + scale (right h) (int i) + scale h (int j)) \<noteq> None"
    using al rect_all_nat [where P = "\<lambda>v. grid st v \<noteq> None" and c = pos and h = h
        and w = w and d = d]
    by blast
  from tile_rows_write [of f t w, OF f w this]
  show ?thesis
    by (simp only: rect_nat)
qed

lemma room_commit_eq:
  assumes al: "\<forall>v \<in> rect corner h (sx + 2) (sy + 2). grid st v \<noteq> None"
    and e: "e \<in> rect corner h (sx + 2) (sy + 2)"
    and sz: "0 \<le> sx" "0 \<le> sy"
  shows "room_commit st e h corner sx sy =
    Inr (st\<lparr>grid := room_grid (grid st) e h corner sx sy\<rparr>)"
proof -
  let ?R = "rect corner h (sx + 2) (sy + 2)"
  let ?I = "rect (corner + h + right h) h sx sy"
  let ?c1 = "corner" and ?c2 = "corner + scale (right h) (sx + 1)"
  let ?c3 = "corner + scale h (sy + 1)"
  let ?c4 = "corner + scale (right h) (sx + 1) + scale h (sy + 1)"
  let ?G1 = "paint ?R TILE_WALL (grid st)"
  let ?G5 = "?G1(?c1 \<mapsto> TILE_PERMAWALL, ?c2 \<mapsto> TILE_PERMAWALL, ?c3 \<mapsto> TILE_PERMAWALL,
     ?c4 \<mapsto> TILE_PERMAWALL)"
  let ?G6 = "paint ?I TILE_FLOOR ?G5"
  have fill: "tile_rows fill_tile h (sx + 2) (nat (sy + 2)) st corner = Inr (st\<lparr>grid := ?G1\<rparr>)"
    using sz al by (intro tile_rows_rect) (auto simp: fill_tile_def)
  have c: "?c1 \<in> ?R" "?c2 \<in> ?R" "?c3 \<in> ?R" "?c4 \<in> ?R"
    using rect_corners [OF sz] by blast+
  have p1: "permawall_tile (st\<lparr>grid := ?G1\<rparr>) ?c1 = Inr (st\<lparr>grid := ?G1(?c1 \<mapsto> TILE_PERMAWALL)\<rparr>)"
    using c by (simp add: permawall_tile_def grid_write_def paint_def)
  have p2: "permawall_tile (st\<lparr>grid := ?G1(?c1 \<mapsto> TILE_PERMAWALL)\<rparr>) ?c2
      = Inr (st\<lparr>grid := ?G1(?c1 \<mapsto> TILE_PERMAWALL, ?c2 \<mapsto> TILE_PERMAWALL)\<rparr>)"
    using c by (simp add: permawall_tile_def grid_write_def paint_def)
  have p3: "permawall_tile (st\<lparr>grid := ?G1(?c1 \<mapsto> TILE_PERMAWALL, ?c2 \<mapsto> TILE_PERMAWALL)\<rparr>) ?c3
      = Inr (st\<lparr>grid := ?G1(?c1 \<mapsto> TILE_PERMAWALL, ?c2 \<mapsto> TILE_PERMAWALL,
          ?c3 \<mapsto> TILE_PERMAWALL)\<rparr>)"
    using c by (simp add: permawall_tile_def grid_write_def paint_def)
  have p4: "permawall_tile (st\<lparr>grid := ?G1(?c1 \<mapsto> TILE_PERMAWALL, ?c2 \<mapsto> TILE_PERMAWALL,
          ?c3 \<mapsto> TILE_PERMAWALL)\<rparr>) ?c4 = Inr (st\<lparr>grid := ?G5\<rparr>)"
    using c by (simp add: permawall_tile_def grid_write_def paint_def)
  have G5: "\<forall>v \<in> ?R. ?G5 v \<noteq> None"
    by (simp add: paint_def)
  have dig: "tile_rows dig_tile h sx (nat sy) (st\<lparr>grid := ?G5\<rparr>) (corner + h + right h)
      = Inr (st\<lparr>grid := ?G6\<rparr>)"
  proof -
    have I5: "\<forall>v \<in> ?I. ?G5 v \<noteq> None"
      using G5 rect_inner [of corner h sx sy] by blast
    have g5: "grid (st\<lparr>grid := ?G5\<rparr>) = ?G5"
      by simp
    have al5: "\<forall>v \<in> ?I. grid (st\<lparr>grid := ?G5\<rparr>) v \<noteq> None"
      unfolding g5 by (rule I5)
    have f5: "\<And>s v. dig_tile s v = grid_write s v TILE_FLOOR"
      by (simp add: dig_tile_def)
    have e2: "\<And>X. st\<lparr>grid := ?G5\<rparr>\<lparr>grid := X\<rparr> = st\<lparr>grid := X\<rparr>"
      by simp
    have "tile_rows dig_tile h sx (nat sy) (st\<lparr>grid := ?G5\<rparr>) (corner + h + right h)
      = Inr (st\<lparr>grid := ?G5\<rparr>\<lparr>grid := paint ?I TILE_FLOOR (grid (st\<lparr>grid := ?G5\<rparr>))\<rparr>)"
      by (rule tile_rows_rect [OF f5 sz al5])
    then show ?thesis
      by (simp only: e2 g5)
  qed
  have door: "door_tile (st\<lparr>grid := ?G6\<rparr>) e = Inr (st\<lparr>grid := ?G6(e \<mapsto> TILE_DOOR)\<rparr>)"
    using e G5 by (simp add: door_tile_def grid_write_def paint_def)
  show ?thesis
    by (simp only: room_commit_def fill p1 p2 p3 p4 dig door room_grid_def sum.case)
qed

lemma drawn_simps [simp]:
  "grid (drawn st k) = grid st" "size_x (drawn st k) = size_x st"
  "size_y (drawn st k) = size_y st" "doorways (drawn st k) = doorways st"
  "rand_src (drawn st k) = rand_src st" "rand_calls (drawn st k) = rand_calls st + k"
  by (simp_all add: drawn_def)

lemma drawn_0 [simp]: "drawn st 0 = st"
  by (simp add: drawn_def)

lemma drawn_drawn [simp]: "drawn (drawn st j) k = drawn st (j + k)"
  by (simp add: drawn_def add.assoc)

lemma rand_range_drawn:
  "rand_range st lo hi = (int (rand_src st (rand_calls st)) mod (hi - lo + 1) + lo, drawn st 1)"
  by (simp add: rand_range_def drawn_def)

lemma room_sx_range: "3 \<le> room_sx st \<and> room_sx st \<le> 6"
  unfolding room_sx_def by simp

lemma room_sy_range: "3 \<le> room_sy st \<and> room_sy st \<le> 6"
  unfolding room_sy_def by simp

lemma room_off_range: "1 \<le> room_off st \<and> room_off st \<le> room_sx st"
proof -
  have "0 < room_sx st"
    using room_sx_range [of st] by linarith
  then have "0 \<le> int (rand_src st (Suc (Suc (rand_calls st)))) mod room_sx st
      \<and> int (rand_src st (Suc (Suc (rand_calls st)))) mod room_sx st < room_sx st"
    by simp
  then show ?thesis
    unfolding room_off_def by linarith
qed

lemma grid_ok_drawn [simp]: "grid_ok (drawn st k) = grid_ok st"
  by (simp add: grid_ok_def is_in_bounds_or_border_def)

lemma cell_ok_drawn [simp]: "cell_ok (drawn st k) e v = cell_ok st e v"
  by (simp add: cell_ok_def is_in_bounds_or_border_def wall_at_def)

lemma dig_room_eq:
  assumes ok: "grid_ok st"
  shows "dig_room st e h =
    (if room_fits st e h
     then Inr (True, room_doorways
            ((drawn st 3)\<lparr>grid := room_grid (grid st) e h (room_corner st e h)
                (room_sx st) (room_sy st)\<rparr>)
            h (room_corner st e h) (room_sx st) (room_sy st))
     else Inr (False, drawn st 3))"
proof -
  let ?sx = "room_sx st" and ?sy = "room_sy st" and ?c = "room_corner st e h"
  let ?st3 = "drawn st 3"
  have sx: "3 \<le> ?sx" "?sx \<le> 6" and sy: "3 \<le> ?sy" "?sy \<le> 6"
    using room_sx_range [of st] room_sy_range [of st] by auto
  have unf: "dig_room st e h =
      (case room_check ?st3 e h ?sx (nat (?sy + 2)) ?c of Inl e \<Rightarrow> Inl e
       | Inr False \<Rightarrow> Inr (False, ?st3)
       | Inr True \<Rightarrow>
           (case room_commit ?st3 e h ?c ?sx ?sy of Inl e \<Rightarrow> Inl e
            | Inr st4 \<Rightarrow> Inr (True, room_doorways st4 h ?c ?sx ?sy)))"
  proof -
    have r1: "rand_range st 3 6 = (?sx, drawn st 1)"
      by (simp add: rand_range_def drawn_def room_sx_def)
    have r2: "rand_range (drawn st 1) 3 6 = (?sy, drawn st 2)"
      by (simp add: rand_range_def drawn_def room_sy_def)
    have r3: "rand_range (drawn st 2) 1 ?sx = (room_off st, ?st3)"
      by (simp add: rand_range_def drawn_def room_off_def numeral_2_eq_2)
    show ?thesis
      by (simp only: dig_room_def r1 r2 r3 Let_def prod.case room_corner_def)
  qed
  have chk: "room_check ?st3 e h ?sx (nat (?sy + 2)) ?c = Inr (room_fits st e h)"
  proof -
    have "room_check ?st3 e h ?sx (nat (?sy + 2)) ?c =
        Inr (\<forall>j<nat (?sy + 2). \<forall>i<nat (?sx + 2).
          cell_ok ?st3 e (?c + scale (right h) (int i) + scale h (int j)))"
      using sx by (intro room_check_eq) (auto simp: ok)
    also have "(\<forall>j<nat (?sy + 2). \<forall>i<nat (?sx + 2).
          cell_ok ?st3 e (?c + scale (right h) (int i) + scale h (int j)))
        = (\<forall>v \<in> rect ?c h (?sx + 2) (?sy + 2). cell_ok ?st3 e v)"
      by (rule rect_all_nat [where P = "cell_ok ?st3 e"])
    finally show ?thesis
      by (simp add: room_fits_def)
  qed
  show ?thesis
  proof (cases "room_fits st e h")
    case False
    then show ?thesis
      by (simp add: unf chk)
  next
    case True
    have al: "\<forall>v \<in> rect ?c h (?sx + 2) (?sy + 2). grid ?st3 v \<noteq> None"
      using True ok by (auto simp: room_fits_def cell_ok_def grid_ok_def)
    have e: "e \<in> rect ?c h (?sx + 2) (?sy + 2)"
      unfolding room_corner_def
      using room_off_range [of st] sy by (intro rect_entrance) auto
    have "room_commit ?st3 e h ?c ?sx ?sy =
        Inr (?st3\<lparr>grid := room_grid (grid ?st3) e h ?c ?sx ?sy\<rparr>)"
      using sx sy by (intro room_commit_eq [OF al e]) auto
    then show ?thesis
      using True by (simp add: unf chk)
  qed
qed

section \<open>The loops of dig_corridor in closed form\<close>

lemma in_bounds_alloc: "grid_ok st \<Longrightarrow> is_in_bounds st v \<Longrightarrow> grid st v \<noteq> None"
  by (simp add: grid_ok_def is_in_bounds_def is_in_bounds_or_border_def)

lemma in_bounds_flank_alloc:
  assumes "grid_ok st" "is_dir h" "is_in_bounds st v"
  shows "grid st (v + left h) \<noteq> None" "grid st (v + right h) \<noteq> None"
  using assms
  by (auto simp: grid_ok_def is_in_bounds_def is_in_bounds_or_border_def is_dir_cases)

lemma vec_comm: "(p::Vector) + a + b = p + b + a"
  by (simp add: Vector_eq_iff)

lemma corridor_check_spec:
  assumes ok: "grid_ok st" and dir: "is_dir h"
  shows "\<exists>r. corridor_check st h ii n pos (pos + left h) (pos + right h) = Inr r \<and>
    (case r of None \<Rightarrow> True
     | Some (len, found) \<Rightarrow>
         \<exists>m. m \<le> n \<and> len = ii + int m
           \<and> (\<forall>k. 1 \<le> k \<and> k \<le> m \<longrightarrow> clear st h (pos + scale h (int k)))
           \<and> (if found
               then m < n \<and> is_in_bounds st (pos + scale h (int (Suc m)))
                    \<and> \<not> wall_at st (pos + scale h (int (Suc m)))
               else m = n))"
proof (induction n arbitrary: ii pos)
  case 0
  show ?case by simp
next
  case (Suc n)
  let ?p = "pos + h"
  show ?case
  proof (cases "is_in_bounds st ?p")
    case False
    then show ?thesis by simp
  next
    case inb: True
    have a: "grid st ?p \<noteq> None"
      by (rule in_bounds_alloc [OF ok inb])
    have al: "grid st (?p + left h) \<noteq> None" and ar: "grid st (?p + right h) \<noteq> None"
      using in_bounds_flank_alloc [OF ok dir inb] by auto
    have fl: "pos + left h + h = ?p + left h" "pos + right h + h = ?p + right h"
      by (rule vec_comm)+
    have p1: "?p = pos + scale h (int (Suc 0))"
      by (simp add: Vector_eq_iff)
    show ?thesis
    proof (cases "wall_at st ?p")
      case False
      have "corridor_check st h ii (Suc n) pos (pos + left h) (pos + right h)
          = Inr (Some (ii, True))"
        using inb False by (simp add: is_wall_ok [OF a])
      moreover have "is_in_bounds st (pos + scale h (int (Suc 0)))
          \<and> \<not> wall_at st (pos + scale h (int (Suc 0)))"
        using inb False p1 by simp
      ultimately show ?thesis
        by (auto intro!: exI [of _ 0] simp del: of_nat_Suc)
    next
      case w: True
      show ?thesis
      proof (cases "clear st h ?p")
        case False
        then have "corridor_check st h ii (Suc n) pos (pos + left h) (pos + right h) = Inr None"
          using inb w
          by (auto simp: clear_def fl is_wall_ok [OF a] is_wall_ok [OF al] is_wall_ok [OF ar]
              is_permawall_ok [OF a])
        then show ?thesis by simp
      next
        case c: True
        have step: "corridor_check st h ii (Suc n) pos (pos + left h) (pos + right h)
            = corridor_check st h (ii + 1) n ?p (?p + left h) (?p + right h)"
          using inb c
          by (simp add: clear_def fl is_wall_ok [OF a] is_wall_ok [OF al] is_wall_ok [OF ar]
              is_permawall_ok [OF a])
        from Suc.IH [of "ii + 1" ?p] obtain r where
          r: "corridor_check st h (ii + 1) n ?p (?p + left h) (?p + right h) = Inr r"
          and rs: "(case r of None \<Rightarrow> True
            | Some (len, found) \<Rightarrow>
              \<exists>m. m \<le> n \<and> len = ii + 1 + int m
                \<and> (\<forall>k. 1 \<le> k \<and> k \<le> m \<longrightarrow> clear st h (?p + scale h (int k)))
                \<and> (if found
                    then m < n \<and> is_in_bounds st (?p + scale h (int (Suc m)))
                         \<and> \<not> wall_at st (?p + scale h (int (Suc m)))
                    else m = n))"
          by blast
        show ?thesis
        proof (cases r)
          case None
          with step r show ?thesis by simp
        next
          case (Some lf)
          obtain len found where lf: "lf = (len, found)"
            by (cases lf)
          from rs Some lf obtain m where m: "m \<le> n" "len = ii + 1 + int m"
            "\<forall>k. 1 \<le> k \<and> k \<le> m \<longrightarrow> clear st h (?p + scale h (int k))"
            "if found
               then m < n \<and> is_in_bounds st (?p + scale h (int (Suc m)))
                    \<and> \<not> wall_at st (?p + scale h (int (Suc m)))
               else m = n"
            by auto
          have sh: "\<And>k. ?p + scale h (int k) = pos + scale h (int (Suc k))"
            by (simp add: Vector_eq_iff algebra_simps)
          have cl: "\<forall>k. 1 \<le> k \<and> k \<le> Suc m \<longrightarrow> clear st h (pos + scale h (int k))"
          proof (intro allI impI)
            fix k assume k: "1 \<le> k \<and> k \<le> Suc m"
            show "clear st h (pos + scale h (int k))"
            proof (cases "k = 1")
              case True
              with c p1 show ?thesis by simp
            next
              case False
              with k obtain k' where k': "k = Suc k'" "1 \<le> k'" "k' \<le> m"
                by (cases k) auto
              with m(3) have "clear st h (?p + scale h (int k'))"
                by blast
              then show ?thesis
                by (simp only: sh k')
            qed
          qed
          have fin: "if found
               then Suc m < Suc n \<and> is_in_bounds st (pos + scale h (int (Suc (Suc m))))
                    \<and> \<not> wall_at st (pos + scale h (int (Suc (Suc m))))
               else Suc m = Suc n"
            using m(4) by (simp only: sh) (simp del: of_nat_Suc)
          have "Suc m \<le> Suc n \<and> len = ii + int (Suc m)"
            using m by simp
          with cl fin have "\<exists>m'. m' \<le> Suc n \<and> len = ii + int m'
              \<and> (\<forall>k. 1 \<le> k \<and> k \<le> m' \<longrightarrow> clear st h (pos + scale h (int k)))
              \<and> (if found
                  then m' < Suc n \<and> is_in_bounds st (pos + scale h (int (Suc m')))
                       \<and> \<not> wall_at st (pos + scale h (int (Suc m')))
                  else m' = Suc n)"
            by blast
          with step r Some lf show ?thesis
            by simp
        qed
      qed
    qed
  qed
qed

lemma scale_shift: "p + h + scale h (int k) = p + scale h (int (Suc k))"
  by (simp add: Vector_eq_iff algebra_simps)

lemma scale_1: "p + scale h (int (Suc 0)) = p + h"
  by (simp add: Vector_eq_iff)

lemma ex_Suc_range:
  "(\<exists>k. 1 \<le> k \<and> k \<le> Suc n \<and> P k) \<longleftrightarrow> P (Suc 0) \<or> (\<exists>k. 1 \<le> k \<and> k \<le> n \<and> P (Suc k))"
proof
  assume "\<exists>k. 1 \<le> k \<and> k \<le> Suc n \<and> P k"
  then obtain k where k: "1 \<le> k" "k \<le> Suc n" "P k"
    by blast
  show "P (Suc 0) \<or> (\<exists>k. 1 \<le> k \<and> k \<le> n \<and> P (Suc k))"
  proof (cases "k = Suc 0")
    case True
    with k show ?thesis by simp
  next
    case False
    with k obtain k' where "k = Suc k'" "1 \<le> k'" "k' \<le> n"
      by (cases k) auto
    with k show ?thesis by blast
  qed
next
  assume "P (Suc 0) \<or> (\<exists>k. 1 \<le> k \<and> k \<le> n \<and> P (Suc k))"
  then show "\<exists>k. 1 \<le> k \<and> k \<le> Suc n \<and> P k"
  proof
    assume "P (Suc 0)"
    then show ?thesis
      by (intro exI [of _ "Suc 0"]) simp
  next
    assume "\<exists>k. 1 \<le> k \<and> k \<le> n \<and> P (Suc k)"
    then obtain k where "1 \<le> k" "k \<le> n" "P (Suc k)"
      by blast
    then show ?thesis
      by (intro exI [of _ "Suc k"]) simp
  qed
qed

lemma on_path_Suc: "on_path pos h (Suc n) v \<longleftrightarrow> v = pos + h \<or> on_path (pos + h) h n v"
  unfolding on_path_def
  by (subst ex_Suc_range) (simp only: scale_shift scale_1)

lemma on_flank_Suc:
  "on_flank pos h (Suc n) v \<longleftrightarrow>
     v = pos + h + left h \<or> v = pos + h + right h \<or> on_flank (pos + h) h n v"
  unfolding on_flank_def
  by (subst ex_Suc_range) (simp only: scale_shift scale_1 disj_assoc)

lemma on_path_0 [simp]: "\<not> on_path pos h 0 v"
  by (simp add: on_path_def)

lemma on_flank_0 [simp]: "\<not> on_flank pos h 0 v"
  by (simp add: on_flank_def)

lemma path_apart:
  assumes "is_dir h"
  shows "\<not> on_path p h n p" "\<not> on_path p h n (p + left h)" "\<not> on_path p h n (p + right h)"
    "\<not> on_flank p h n p"
  using assms
  by (auto simp: on_path_def on_flank_def Vector_eq_iff is_dir_cases)

lemma flank_not_path:
  assumes "is_dir h"
  shows "on_flank p h n v \<Longrightarrow> \<not> on_path p h m v"
  using assms
  by (auto simp: on_path_def on_flank_def Vector_eq_iff is_dir_cases)

lemma carve_grid_eq:
  assumes dir: "is_dir h"
  shows "carve_grid G pos h n v =
    (if on_path pos h n v then Some TILE_FLOOR
     else if on_flank pos h n v then Some TILE_WALL else G v)"
proof (induction n arbitrary: G pos)
  case 0
  show ?case by simp
next
  case (Suc n)
  have a: "\<not> on_path (pos + h) h n (pos + h)"
    "\<not> on_path (pos + h) h n (pos + h + left h)"
    "\<not> on_path (pos + h) h n (pos + h + right h)"
    "\<not> on_flank (pos + h) h n (pos + h)"
    by (rule path_apart [OF dir])+
  have b: "pos + h + left h \<noteq> pos + h" "pos + h + right h \<noteq> pos + h"
    using dir by (auto simp: Vector_eq_iff is_dir_cases)
  show ?case
    using a b by (auto simp: Suc.IH on_path_Suc on_flank_Suc)
qed

lemma scale_one [simp]: "scale h 1 = h"
  by (simp add: Vector_eq_iff)

lemma ahead_apart:
  assumes "is_dir h" "1 \<le> k"
  shows "c + scale h (int k) \<noteq> c" "c + scale h (int k) \<noteq> c + left h"
    "c + scale h (int k) \<noteq> c + right h"
  using assms by (auto simp: Vector_eq_iff is_dir_cases)

lemma is_in_bounds_grid [simp]: "is_in_bounds (st\<lparr>grid := G\<rparr>) v = is_in_bounds st v"
  by (simp add: is_in_bounds_def)

lemma is_in_bounds_or_border_grid [simp]:
  "is_in_bounds_or_border (st\<lparr>grid := G\<rparr>) v = is_in_bounds_or_border st v"
  by (simp add: is_in_bounds_or_border_def)

lemma wall_at_upd:
  "wall_at (st\<lparr>grid := G(a \<mapsto> t)\<rparr>) v
     = (if v = a then wallish t else wall_at (st\<lparr>grid := G\<rparr>) v)"
  by (simp add: wall_at_def)

lemma wall_at_same [simp]: "wall_at (st\<lparr>grid := grid st\<rparr>) v = wall_at st v"
  by (simp add: wall_at_def)

lemma grid_ok_write:
  "grid_ok st \<Longrightarrow> \<forall>v. (G v = None) = (grid st v = None) \<Longrightarrow> grid_ok (st\<lparr>grid := G\<rparr>)"
  by (simp add: grid_ok_def)

lemma corridor_carve_eq:
  assumes dir: "is_dir h"
  shows "grid_ok st \<Longrightarrow>
    \<forall>k. 1 \<le> k \<and> k \<le> n \<longrightarrow>
      is_in_bounds st (pos + scale h (int k)) \<and> wall_at st (pos + scale h (int k)) \<Longrightarrow>
    is_in_bounds st (pos + scale h (int (Suc n))) \<Longrightarrow>
    \<not> wall_at st (pos + scale h (int (Suc n))) \<Longrightarrow>
    corridor_carve h n st pos (pos + left h) (pos + right h)
      = Inr (st\<lparr>grid := carve_grid (grid st) pos h n\<rparr>, pos + scale h (int n))"
proof (induction n arbitrary: st pos)
  case 0
  show ?case by (simp add: scale_0)
next
  case (Suc n)
  let ?c = "pos + h"
  let ?G1 = "(grid st)(?c \<mapsto> TILE_FLOOR, ?c + left h \<mapsto> TILE_WALL, ?c + right h \<mapsto> TILE_WALL)"
  let ?st3 = "st\<lparr>grid := ?G1\<rparr>"
  note ok = \<open>grid_ok st\<close>
  have c1: "is_in_bounds st ?c"
    using Suc.prems(2) [rule_format, of "Suc 0"] by (simp add: scale_1)
  have a: "grid st ?c \<noteq> None"
    by (rule in_bounds_alloc [OF ok c1])
  have al: "grid st (?c + left h) \<noteq> None" and ar: "grid st (?c + right h) \<noteq> None"
    using in_bounds_flank_alloc [OF ok dir c1] by auto
  have fl: "pos + left h + h = ?c + left h" "pos + right h + h = ?c + right h"
    by (rule vec_comm)+
  have d1: "dig_tile st ?c = Inr (st\<lparr>grid := (grid st)(?c \<mapsto> TILE_FLOOR)\<rparr>)"
    using a by (auto simp: dig_tile_def grid_write_def)
  have d2: "fill_tile (st\<lparr>grid := (grid st)(?c \<mapsto> TILE_FLOOR)\<rparr>) (?c + left h)
      = Inr (st\<lparr>grid := (grid st)(?c \<mapsto> TILE_FLOOR, ?c + left h \<mapsto> TILE_WALL)\<rparr>)"
    using al by (auto simp: fill_tile_def grid_write_def)
  have d3: "fill_tile (st\<lparr>grid := (grid st)(?c \<mapsto> TILE_FLOOR, ?c + left h \<mapsto> TILE_WALL)\<rparr>)
      (?c + right h) = Inr ?st3"
    using ar by (auto simp: fill_tile_def grid_write_def)
  have ok3: "grid_ok ?st3"
    using a al ar by (intro grid_ok_write [OF ok]) auto
  have same: "\<And>k. 1 \<le> k \<Longrightarrow> wall_at ?st3 (?c + scale h (int k)) = wall_at st (?c + scale h (int k))"
    using ahead_apart [OF dir, of _ ?c] by (simp add: wall_at_upd)
  have nx: "?c + h = ?c + scale h (int (Suc 0))"
    by (simp add: scale_1)
  have two: "pos + scale h (int (Suc (Suc 0))) = ?c + h"
    by (simp add: Vector_eq_iff)
  have nb: "is_in_bounds st (?c + h)"
  proof (cases n)
    case 0
    from Suc.prems(3) have "is_in_bounds st (pos + scale h (int (Suc (Suc 0))))"
      unfolding 0 .
    then show ?thesis
      using two by metis
  next
    case (Suc n')
    from Suc.prems(2) [rule_format, of "Suc (Suc 0)"] Suc
    have "is_in_bounds st (pos + scale h (int (Suc (Suc 0))))"
      by simp
    then show ?thesis
      using two by metis
  qed
  have a2: "grid ?st3 (?c + h) \<noteq> None"
    using in_bounds_alloc [OF ok3, of "?c + h"] nb by simp
  have w3: "wall_at ?st3 (?c + h) = wall_at st (?c + h)"
    using same [of "Suc 0"] by (simp add: scale_1)
  have unf: "corridor_carve h (Suc n) st pos (pos + left h) (pos + right h) =
      (if \<not> wall_at st (?c + h) then Inr (?st3, ?c)
       else corridor_carve h n ?st3 ?c (?c + left h) (?c + right h))"
    using nb by (simp only: corridor_carve.simps d1 d2 d3 fl sum.case is_in_bounds_grid
        is_wall_ok [OF a2] w3 if_not_P not_not)
  show ?case
  proof (cases n)
    case 0
    from Suc.prems(4) have "\<not> wall_at st (pos + scale h (int (Suc (Suc 0))))"
      unfolding 0 .
    then have "\<not> wall_at st (?c + h)"
      using two by metis
    then have "corridor_carve h (Suc n) st pos (pos + left h) (pos + right h) = Inr (?st3, ?c)"
      by (simp only: unf simp_thms if_True)
    then show ?thesis
      unfolding 0 by (simp only: carve_grid.simps scale_1)
  next
    case (Suc n')
    from Suc.prems(2) [rule_format, of "Suc (Suc 0)"] Suc
    have "wall_at st (pos + scale h (int (Suc (Suc 0))))"
      by simp
    then have w: "wall_at st (?c + h)"
      using two by metis
    have pre: "\<forall>k. 1 \<le> k \<and> k \<le> n \<longrightarrow>
        is_in_bounds ?st3 (?c + scale h (int k)) \<and> wall_at ?st3 (?c + scale h (int k))"
    proof (intro allI impI)
      fix k assume k: "1 \<le> k \<and> k \<le> n"
      then have "is_in_bounds st (pos + scale h (int (Suc k)))
          \<and> wall_at st (pos + scale h (int (Suc k)))"
        using Suc.prems(2) [rule_format, of "Suc k"] by simp
      then show "is_in_bounds ?st3 (?c + scale h (int k)) \<and> wall_at ?st3 (?c + scale h (int k))"
        using k same [of k] by (simp add: scale_shift del: of_nat_Suc)
    qed
    have s1: "is_in_bounds ?st3 (?c + scale h (int (Suc n)))"
      using Suc.prems(3) by (simp add: scale_shift del: of_nat_Suc)
    have s2: "\<not> wall_at ?st3 (?c + scale h (int (Suc n)))"
      using Suc.prems(4) same [of "Suc n"] by (simp add: scale_shift del: of_nat_Suc)
    have e1: "grid ?st3 = ?G1"
      by simp
    have e2: "\<And>X. ?st3\<lparr>grid := X\<rparr> = st\<lparr>grid := X\<rparr>"
      by simp
    have "corridor_carve h n ?st3 ?c (?c + left h) (?c + right h)
        = Inr (?st3\<lparr>grid := carve_grid (grid ?st3) ?c h n\<rparr>, ?c + scale h (int n))"
      by (rule Suc.IH [OF ok3 pre s1 s2])
    then show ?thesis
      using w by (simp only: unf e1 e2 carve_grid.simps scale_shift simp_thms if_False)
  qed
qed

lemma is_in_bounds_drawn [simp]: "is_in_bounds (drawn st k) v = is_in_bounds st v"
  by (simp add: is_in_bounds_def)

lemma wall_at_drawn [simp]: "wall_at (drawn st k) v = wall_at st v"
  by (simp add: wall_at_def)

lemma clear_drawn [simp]: "clear (drawn st k) h v = clear st h v"
  by (simp add: clear_def)

lemma stop_apart:
  assumes "is_dir h"
  shows "\<not> on_path e h m (e + scale h (int (Suc m)))"
    "\<not> on_flank e h m (e + scale h (int (Suc m)))"
  using assms by (auto simp: on_path_def on_flank_def Vector_eq_iff is_dir_cases)

lemma corridor_len_range: "2 \<le> corridor_len st \<and> corridor_len st \<le> 6"
  unfolding corridor_len_def by simp

lemma dig_corridor_eq:
  assumes ok: "grid_ok st" and dir: "is_dir h"
  shows "\<exists>r. corridor_check (drawn st 1) h 0 (nat (corridor_len st)) e (e + left h) (e + right h)
        = Inr r
    \<and> dig_corridor st e h =
        (case r of None \<Rightarrow> Inr (False, drawn st 1)
         | Some (len, found) \<Rightarrow>
             if len \<le> 1 \<or> \<not> found then Inr (False, drawn st 1)
             else Inr (True, (drawn st 1)\<lparr>grid := (carve_grid (grid st) e h (nat len))
                    (e + scale h len \<mapsto> TILE_DOOR)\<rparr>))
    \<and> (case r of None \<Rightarrow> True
        | Some (len, found) \<Rightarrow>
            0 \<le> len \<and> len \<le> corridor_len st
            \<and> (\<forall>k. 1 \<le> k \<and> k \<le> nat len \<longrightarrow> clear st h (e + scale h (int k)))
            \<and> (found \<longrightarrow> is_in_bounds st (e + scale h (len + 1))
                  \<and> \<not> wall_at st (e + scale h (len + 1))))"
proof -
  define st1 where "st1 = drawn st 1"
  let ?L = "corridor_len st"
  have ok1: "grid_ok st1"
    using ok by (simp add: st1_def)
  have rr: "rand_range st 2 6 = (?L, st1)"
    by (simp add: rand_range_def drawn_def corridor_len_def st1_def)
  have st1 [simp]: "grid st1 = grid st" "\<And>v. is_in_bounds st1 v = is_in_bounds st v"
    "\<And>v. wall_at st1 v = wall_at st v" "\<And>v. clear st1 h v = clear st h v"
    by (simp_all add: st1_def)
  from corridor_check_spec [OF ok1 dir, of 0 "nat ?L" e] obtain r where
    r: "corridor_check st1 h 0 (nat ?L) e (e + left h) (e + right h) = Inr r"
    and rs: "(case r of None \<Rightarrow> True
     | Some (len, found) \<Rightarrow>
         \<exists>m. m \<le> nat ?L \<and> len = 0 + int m
           \<and> (\<forall>k. 1 \<le> k \<and> k \<le> m \<longrightarrow> clear st1 h (e + scale h (int k)))
           \<and> (if found
               then m < nat ?L \<and> is_in_bounds st1 (e + scale h (int (Suc m)))
                    \<and> \<not> wall_at st1 (e + scale h (int (Suc m)))
               else m = nat ?L))"
    by blast
  have unf: "dig_corridor st e h =
      (case r of None \<Rightarrow> Inr (False, st1)
       | Some (len, found_intersect) \<Rightarrow>
           if len \<le> 1 then Inr (False, st1)
           else if \<not> found_intersect then Inr (False, st1)
           else (case corridor_carve h (nat len) st1 e (e + left h) (e + right h) of
                   Inl e \<Rightarrow> Inl e
                 | Inr (st2, pos) \<Rightarrow>
                     (case corridor_end st2 h pos of Inl e \<Rightarrow> Inl e
                      | Inr st3 \<Rightarrow> Inr (True, st3))))"
    by (simp only: dig_corridor_def rr Let_def prod.case r sum.case)
  show ?thesis
  proof (cases r)
    case None
    with r unf show ?thesis unfolding st1_def by simp
  next
    case (Some lf)
    obtain len found where lf: "lf = (len, found)"
      by (cases lf)
    from rs Some lf obtain m where m0: "m \<le> nat ?L" "len = 0 + int m"
      "\<forall>k. 1 \<le> k \<and> k \<le> m \<longrightarrow> clear st1 h (e + scale h (int k))"
      "if found
       then m < nat ?L \<and> is_in_bounds st1 (e + scale h (int (Suc m)))
            \<and> \<not> wall_at st1 (e + scale h (int (Suc m)))
       else m = nat ?L"
      by (simp only: option.case prod.case) blast
    have m: "m \<le> nat ?L" "len = int m"
      "\<forall>k. 1 \<le> k \<and> k \<le> m \<longrightarrow> clear st h (e + scale h (int k))"
      "if found
       then m < nat ?L \<and> is_in_bounds st (e + scale h (int (Suc m)))
            \<and> \<not> wall_at st (e + scale h (int (Suc m)))
       else m = nat ?L"
      using m0 by (simp_all del: of_nat_Suc cong: if_cong)
    have props: "0 \<le> len \<and> len \<le> ?L
        \<and> (\<forall>k. 1 \<le> k \<and> k \<le> nat len \<longrightarrow> clear st h (e + scale h (int k)))
        \<and> (found \<longrightarrow> is_in_bounds st (e + scale h (len + 1))
              \<and> \<not> wall_at st (e + scale h (len + 1)))"
    proof -
      have "int m \<le> ?L"
        using m(1) corridor_len_range [of st] by linarith
      moreover have "found \<longrightarrow> is_in_bounds st (e + scale h (len + 1))
              \<and> \<not> wall_at st (e + scale h (len + 1))"
        using m(2,4) by (auto simp: add.commute)
      ultimately show ?thesis
        using m(2,3) by simp
    qed
    show ?thesis
    proof (cases "len \<le> 1 \<or> \<not> found")
      case True
      with r unf Some lf props show ?thesis
        unfolding st1_def by auto
    next
      case False
      then have m2: "2 \<le> m" and found: found
        using m by auto
      have stop: "is_in_bounds st (e + scale h (int (Suc m)))"
        "\<not> wall_at st (e + scale h (int (Suc m)))"
        using m(4) found by auto
      have pre: "\<forall>k. 1 \<le> k \<and> k \<le> m \<longrightarrow>
          is_in_bounds st1 (e + scale h (int k)) \<and> wall_at st1 (e + scale h (int k))"
        using m(3) by (simp add: clear_def)
      let ?G = "carve_grid (grid st) e h m"
      let ?st2 = "st1\<lparr>grid := ?G\<rparr>"
      let ?p = "e + scale h (int m)"
      have carve: "corridor_carve h m st1 e (e + left h) (e + right h) = Inr (?st2, ?p)"
        using corridor_carve_eq [OF dir ok1 pre] stop by simp
      have nxt: "?p + h = e + scale h (int (Suc m))"
        by (simp add: Vector_eq_iff algebra_simps)
      have gs: "?G (e + scale h (int (Suc m))) = grid st (e + scale h (int (Suc m)))"
        using stop_apart [OF dir, of e m] by (simp only: carve_grid_eq [OF dir] if_False)
      have w2: "is_wall ?st2 (?p + h) = Inr False"
      proof -
        have "grid ?st2 (?p + h) \<noteq> None"
          using in_bounds_alloc [OF ok stop(1)] by (simp only: nxt) (simp add: gs del: of_nat_Suc)
        from is_wall_ok [OF this] show ?thesis
          using stop(2) by (simp only: nxt) (simp add: wall_at_def gs del: of_nat_Suc)
      qed
      have pm: "on_path e h m ?p"
        using m2 unfolding on_path_def by (intro exI [of _ m]) simp
      have d: "door_tile ?st2 ?p = Inr (st1\<lparr>grid := ?G(?p \<mapsto> TILE_DOOR)\<rparr>)"
        using pm by (simp add: door_tile_def grid_write_def carve_grid_eq [OF dir])
      have e: "corridor_end ?st2 h ?p = Inr (st1\<lparr>grid := ?G(?p \<mapsto> TILE_DOOR)\<rparr>)"
      proof -
        have ib: "is_in_bounds ?st2 (?p + h)"
          using stop(1) by (simp only: nxt is_in_bounds_grid st1)
        show ?thesis
          by (simp only: corridor_end_def ib w2 d simp_thms if_False sum.case)
      qed
      have "dig_corridor st e h = Inr (True, st1\<lparr>grid := ?G(?p \<mapsto> TILE_DOOR)\<rparr>)"
        using False m(2) by (simp add: unf Some lf carve e)
      with r Some lf props False m(2) show ?thesis
        unfolding st1_def by auto
    qed
  qed
qed

lemma grid_ok_init_map: "grid_ok (init_map w h rnd)"
  by (simp add: grid_ok_def init_map_def is_in_bounds_or_border_def)

section \<open>Room placement is atomic (C4)\<close>

text \<open>
  C4. On an allocated grid, for every entrance and heading: \<open>dig_room\<close> returns 1 exactly
  when every cell of the drawn footprint is inside the grid and is wall-like or the
  entrance; when some cell is not, it returns 0 and the state is the one before the call
  with three more random numbers drawn: no cell and no doorway has changed.
\<close>

theorem dig_room_atomic:
  assumes "grid_ok st"
  shows "if room_fits st entrance hdg
         then \<exists>st'. dig_room st entrance hdg = Inr (True, st')
         else dig_room st entrance hdg = Inr (False, st\<lparr>rand_calls := rand_calls st + 3\<rparr>)"
  using dig_room_eq [OF assms, of entrance hdg] by (simp add: drawn_def)

theorem dig_room_atomic_witness:
  "dig_room (init_map 5 5 (nth_default 0 [])) (Vector 2 4) (Vector 0 (- 1))
     = Inr (False, (init_map 5 5 (nth_default 0 []))\<lparr>rand_calls := 3\<rparr>)"
proof -
  let ?st = "init_map 5 5 (nth_default 0 [])"
  have c: "room_corner ?st (Vector 2 4) (Vector 0 (- 1)) = Vector 1 4"
    by (simp add: room_corner_def room_off_def room_sx_def init_map_def Vector_eq_iff)
  have "Vector 5 4 \<in> rect (Vector 1 4) (Vector 0 (- 1)) (room_sx ?st + 2) (room_sy ?st + 2)"
    by (rule rectI [of 4 _ 0]) (simp_all add: room_sx_def room_sy_def init_map_def Vector_eq_iff)
  moreover have "\<not> cell_ok ?st (Vector 2 4) (Vector 5 4)"
    by (simp add: cell_ok_def is_in_bounds_or_border_def init_map_def)
  ultimately have "\<not> room_fits ?st (Vector 2 4) (Vector 0 (- 1))"
    unfolding room_fits_def c by blast
  then show ?thesis
    using dig_room_atomic [OF grid_ok_init_map, of 5 5 "nth_default 0 []" "Vector 2 4" "Vector 0 (- 1)"]
    by (simp add: init_map_def)
qed

section \<open>Corridor rejection (C5)\<close>

text \<open>
  C5. On an allocated grid, for every entrance and unit heading, the checking loop of
  \<open>dig_corridor\<close> ends without an access out of the grid. When it returns 0, or leaves a
  length of at most 1, or has found no intersection, \<open>dig_corridor\<close> returns 0 and the
  state is the one before the call with one more random number drawn. Otherwise the
  length is at least 2, \<open>dig_corridor\<close> returns 1, each of the cells 1 to length ahead of
  the entrance was wall-like before and is floor or door after, and the cell after them
  was already floor or door: the footprint has at least two cells and ends at an
  intersection.
\<close>

theorem dig_corridor_rejects:
  assumes "grid_ok st" and "is_dir hdg"
  shows "\<exists>r. corridor_check (st\<lparr>rand_calls := rand_calls st + 1\<rparr>) hdg 0 (nat (corridor_len st))
            entrance (entrance + left hdg) (entrance + right hdg) = Inr r
    \<and> (case r of
         None \<Rightarrow> dig_corridor st entrance hdg = Inr (False, st\<lparr>rand_calls := rand_calls st + 1\<rparr>)
       | Some (len, found) \<Rightarrow>
           if len \<le> 1 \<or> \<not> found
           then dig_corridor st entrance hdg = Inr (False, st\<lparr>rand_calls := rand_calls st + 1\<rparr>)
           else 2 \<le> len
             \<and> (\<exists>st'. dig_corridor st entrance hdg = Inr (True, st')
                  \<and> (\<forall>k. 1 \<le> k \<and> k \<le> nat len \<longrightarrow>
                        wall_at st (entrance + scale hdg (int k))
                        \<and> open_at st' (entrance + scale hdg (int k))))
             \<and> open_at st (entrance + scale hdg (len + 1)))"
proof -
  define S where "S = st\<lparr>rand_calls := rand_calls st + 1\<rparr>"
  have dr: "drawn st 1 = S"
    by (simp add: drawn_def S_def)
  have S [simp]: "grid S = grid st"
    by (simp add: S_def)
  from dig_corridor_eq [OF assms, of entrance] obtain r where
    r: "corridor_check S hdg 0 (nat (corridor_len st)) entrance
          (entrance + left hdg) (entrance + right hdg) = Inr r"
    and d: "dig_corridor st entrance hdg =
        (case r of None \<Rightarrow> Inr (False, S)
         | Some (len, found) \<Rightarrow>
             if len \<le> 1 \<or> \<not> found then Inr (False, S)
             else Inr (True, S\<lparr>grid := (carve_grid (grid st) entrance hdg (nat len))
                    (entrance + scale hdg len \<mapsto> TILE_DOOR)\<rparr>))"
    and p: "(case r of None \<Rightarrow> True
        | Some (len, found) \<Rightarrow>
            0 \<le> len \<and> len \<le> corridor_len st
            \<and> (\<forall>k. 1 \<le> k \<and> k \<le> nat len \<longrightarrow> clear st hdg (entrance + scale hdg (int k)))
            \<and> (found \<longrightarrow> is_in_bounds st (entrance + scale hdg (len + 1))
                  \<and> \<not> wall_at st (entrance + scale hdg (len + 1))))"
    unfolding dr by blast
  have "case r of
         None \<Rightarrow> dig_corridor st entrance hdg = Inr (False, S)
       | Some (len, found) \<Rightarrow>
           if len \<le> 1 \<or> \<not> found
           then dig_corridor st entrance hdg = Inr (False, S)
           else 2 \<le> len
             \<and> (\<exists>st'. dig_corridor st entrance hdg = Inr (True, st')
                  \<and> (\<forall>k. 1 \<le> k \<and> k \<le> nat len \<longrightarrow>
                        wall_at st (entrance + scale hdg (int k))
                        \<and> open_at st' (entrance + scale hdg (int k))))
             \<and> open_at st (entrance + scale hdg (len + 1))"
  proof (cases r)
    case None
    with d show ?thesis
      by simp
  next
    case (Some lf)
    obtain len found where lf: "lf = (len, found)"
      by (cases lf)
    show ?thesis
    proof (cases "len \<le> 1 \<or> \<not> found")
      case True
      with d Some lf show ?thesis
        by auto
    next
      case False
      then have len: "2 \<le> len" and found: found
        by auto
      let ?G = "(carve_grid (grid st) entrance hdg (nat len))(entrance + scale hdg len \<mapsto> TILE_DOOR)"
      let ?st' = "S\<lparr>grid := ?G\<rparr>"
      from p Some lf found
      have cl: "\<forall>k. 1 \<le> k \<and> k \<le> nat len \<longrightarrow> clear st hdg (entrance + scale hdg (int k))"
        and stop: "is_in_bounds st (entrance + scale hdg (len + 1))"
          "\<not> wall_at st (entrance + scale hdg (len + 1))"
        by auto
      have cells: "\<forall>k. 1 \<le> k \<and> k \<le> nat len \<longrightarrow>
          wall_at st (entrance + scale hdg (int k)) \<and> open_at ?st' (entrance + scale hdg (int k))"
      proof (intro allI impI)
        fix k assume k: "1 \<le> k \<and> k \<le> nat len"
        then have "on_path entrance hdg (nat len) (entrance + scale hdg (int k))"
          by (auto simp: on_path_def)
        then have "open_at ?st' (entrance + scale hdg (int k))"
          by (simp add: open_at_def carve_grid_eq [OF assms(2)])
        moreover have "wall_at st (entrance + scale hdg (int k))"
          using cl k by (simp add: clear_def)
        ultimately show "wall_at st (entrance + scale hdg (int k))
            \<and> open_at ?st' (entrance + scale hdg (int k))"
          by simp
      qed
      have "grid st (entrance + scale hdg (len + 1)) \<noteq> None"
        by (rule in_bounds_alloc [OF assms(1) stop(1)])
      then obtain t where t: "grid st (entrance + scale hdg (len + 1)) = Some t"
        by blast
      with stop(2) have "\<not> wallish t"
        by (simp add: wall_at_def)
      then have "t = TILE_FLOOR \<or> t = TILE_DOOR"
        by (cases t) (simp_all add: wallish_def)
      with t have op: "open_at st (entrance + scale hdg (len + 1))"
        by (auto simp: open_at_def)
      have "dig_corridor st entrance hdg = Inr (True, ?st')"
        using d Some lf False by simp
      with cells have "\<exists>st'. dig_corridor st entrance hdg = Inr (True, st')
                  \<and> (\<forall>k. 1 \<le> k \<and> k \<le> nat len \<longrightarrow>
                        wall_at st (entrance + scale hdg (int k))
                        \<and> open_at st' (entrance + scale hdg (int k)))"
        by blast
      with Some lf False len op show ?thesis
        by simp
    qed
  qed
  with r show ?thesis
    unfolding S_def [symmetric] by blast
qed

theorem dig_corridor_rejects_witness:
  "\<exists>st'. dig_corridor
      ((init_map 9 9 (nth_default 0 [1]))
         \<lparr>grid := (grid (init_map 9 9 (nth_default 0 [1])))(Vector 4 2 \<mapsto> TILE_FLOOR)\<rparr>)
      (Vector 4 5) (Vector 0 (- 1)) = Inr (True, st')
    \<and> open_at st' (Vector 4 4) \<and> open_at st' (Vector 4 3)"
proof -
  define st where "st = (init_map 9 9 (nth_default 0 [1]))
         \<lparr>grid := (grid (init_map 9 9 (nth_default 0 [1])))(Vector 4 2 \<mapsto> TILE_FLOOR)\<rparr>"
  define e where "e = Vector 4 5"
  define h where "h = Vector 0 (- 1)"
  have ok: "grid_ok st"
    by (auto simp: st_def grid_ok_def init_map_def is_in_bounds_or_border_def)
  have dir: "is_dir h"
    by (simp add: h_def is_dir_def)
  have chk: "corridor_check (st\<lparr>rand_calls := rand_calls st + 1\<rparr>) h 0 (nat (corridor_len st))
      e (e + left h) (e + right h) = Inr (Some (2, True))"
    unfolding st_def e_def h_def by code_simp
  from dig_corridor_rejects [OF ok dir, of e] chk
  obtain st' where d: "dig_corridor st e h = Inr (True, st')"
    and c: "\<forall>k. 1 \<le> k \<and> k \<le> nat 2 \<longrightarrow>
      wall_at st (e + scale h (int k)) \<and> open_at st' (e + scale h (int k))"
    by auto
  have "open_at st' (e + scale h (int 1))" "open_at st' (e + scale h (int 2))"
    using c by auto
  then have "open_at st' (Vector 4 4)" "open_at st' (Vector 4 3)"
    by (simp_all add: e_def h_def plus_Vector_def scale_def)
  with d show ?thesis
    unfolding st_def e_def h_def by blast
qed

section \<open>What a corridor leaves alone (C10)\<close>

lemma dig_corridor_cases:
  assumes ok: "grid_ok st" and dir: "is_dir h"
  shows "dig_corridor st e h = Inr (False, drawn st 1)
    \<or> (\<exists>m. 2 \<le> m \<and> int m \<le> corridor_len st
          \<and> (\<forall>k. 1 \<le> k \<and> k \<le> m \<longrightarrow> clear st h (e + scale h (int k)))
          \<and> is_in_bounds st (e + scale h (int (Suc m)))
          \<and> \<not> wall_at st (e + scale h (int (Suc m)))
          \<and> dig_corridor st e h =
              Inr (True, (drawn st 1)\<lparr>grid := (carve_grid (grid st) e h m)
                    (e + scale h (int m) \<mapsto> TILE_DOOR)\<rparr>))"
proof -
  from dig_corridor_eq [OF assms, of e] obtain r where
    d: "dig_corridor st e h =
        (case r of None \<Rightarrow> Inr (False, drawn st 1)
         | Some (len, found) \<Rightarrow>
             if len \<le> 1 \<or> \<not> found then Inr (False, drawn st 1)
             else Inr (True, (drawn st 1)\<lparr>grid := (carve_grid (grid st) e h (nat len))
                    (e + scale h len \<mapsto> TILE_DOOR)\<rparr>))"
    and p: "(case r of None \<Rightarrow> True
        | Some (len, found) \<Rightarrow>
            0 \<le> len \<and> len \<le> corridor_len st
            \<and> (\<forall>k. 1 \<le> k \<and> k \<le> nat len \<longrightarrow> clear st h (e + scale h (int k)))
            \<and> (found \<longrightarrow> is_in_bounds st (e + scale h (len + 1))
                  \<and> \<not> wall_at st (e + scale h (len + 1))))"
    by blast
  show ?thesis
  proof (cases r)
    case None
    with d show ?thesis by simp
  next
    case (Some lf)
    obtain len found where lf: "lf = (len, found)"
      by (cases lf)
    show ?thesis
    proof (cases "len \<le> 1 \<or> \<not> found")
      case True
      with d Some lf show ?thesis by auto
    next
      case False
      define m where "m = nat len"
      from False have len: "len = int m" "2 \<le> m" and found: found
        by (auto simp: m_def)
      have s: "len + 1 = int (Suc m)"
        using len by simp
      from p Some lf found
      have "int m \<le> corridor_len st"
        "\<forall>k. 1 \<le> k \<and> k \<le> m \<longrightarrow> clear st h (e + scale h (int k))"
        "is_in_bounds st (e + scale h (int (Suc m)))"
        "\<not> wall_at st (e + scale h (int (Suc m)))"
        unfolding s [symmetric] by (auto simp: len)
      moreover have "dig_corridor st e h =
              Inr (True, (drawn st 1)\<lparr>grid := (carve_grid (grid st) e h m)
                    (e + scale h (int m) \<mapsto> TILE_DOOR)\<rparr>)"
        using d Some lf False len by simp
      ultimately show ?thesis
        using len(2) by blast
    qed
  qed
qed

text \<open>
  C10. On an allocated grid, for every entrance and unit heading, \<open>dig_corridor\<close> ends
  without an access out of the grid and the entrance cell holds after the call what it
  held before, whether the corridor was placed or not.
\<close>

theorem dig_corridor_keeps_entrance:
  assumes "grid_ok st" and "is_dir hdg"
  shows "\<exists>ok st'. dig_corridor st entrance hdg = Inr (ok, st')
    \<and> grid st' entrance = grid st entrance"
proof -
  from dig_corridor_cases [OF assms, of entrance]
  consider "dig_corridor st entrance hdg = Inr (False, drawn st 1)"
    | m where "2 \<le> m" "dig_corridor st entrance hdg =
        Inr (True, (drawn st 1)\<lparr>grid := (carve_grid (grid st) entrance hdg m)
              (entrance + scale hdg (int m) \<mapsto> TILE_DOOR)\<rparr>)"
    by blast
  then show ?thesis
  proof cases
    case 1
    then show ?thesis by auto
  next
    case 2
    have "entrance + scale hdg (int m) \<noteq> entrance"
      using ahead_apart(1) [OF assms(2), of m entrance] 2(1) by simp
    moreover have "carve_grid (grid st) entrance hdg m entrance = grid st entrance"
      using path_apart [OF assms(2), of entrance m]
      by (simp add: carve_grid_eq [OF assms(2)])
    ultimately show ?thesis
      using 2(2) by auto
  qed
qed

theorem dig_corridor_keeps_entrance_witness:
  "\<exists>ok st'. dig_corridor
      ((init_map 9 9 (nth_default 0 [1]))
         \<lparr>grid := (grid (init_map 9 9 (nth_default 0 [1])))(Vector 4 2 \<mapsto> TILE_FLOOR)\<rparr>)
      (Vector 4 5) (Vector 0 (- 1)) = Inr (ok, st')
    \<and> grid st' (Vector 4 5) = Some TILE_UNKNOWN"
proof -
  define st where "st = (init_map 9 9 (nth_default 0 [1]))
         \<lparr>grid := (grid (init_map 9 9 (nth_default 0 [1])))(Vector 4 2 \<mapsto> TILE_FLOOR)\<rparr>"
  have ok: "grid_ok st"
    by (auto simp: st_def grid_ok_def init_map_def is_in_bounds_or_border_def)
  have dir: "is_dir (Vector 0 (- 1))"
    by (simp add: is_dir_def)
  have "grid st (Vector 4 5) = Some TILE_UNKNOWN"
    by (simp add: st_def init_map_def)
  with dig_corridor_keeps_entrance [OF ok dir, of "Vector 4 5"] show ?thesis
    unfolding st_def by simp
qed

text \<open>
  The test \<open>is_permawall\<close> of the checking loop protects the centre cells of one call: on
  an allocated grid, for every entrance and unit heading, a cell that is permawall before
  \<open>dig_corridor\<close> is permawall or wall after it. It may be wall, because the flank cells
  are written by \<open>fill_tile\<close> with no such test.
\<close>

lemma dig_corridor_spares_permawall:
  assumes "grid_ok st" and "is_dir hdg" and "grid st v = Some TILE_PERMAWALL"
  shows "\<exists>ok st'. dig_corridor st entrance hdg = Inr (ok, st')
    \<and> (grid st' v = Some TILE_PERMAWALL \<or> grid st' v = Some TILE_WALL)"
proof -
  from dig_corridor_cases [OF assms(1,2), of entrance]
  consider "dig_corridor st entrance hdg = Inr (False, drawn st 1)"
    | m where "2 \<le> m"
      "\<forall>k. 1 \<le> k \<and> k \<le> m \<longrightarrow> clear st hdg (entrance + scale hdg (int k))"
      "dig_corridor st entrance hdg =
        Inr (True, (drawn st 1)\<lparr>grid := (carve_grid (grid st) entrance hdg m)
              (entrance + scale hdg (int m) \<mapsto> TILE_DOOR)\<rparr>)"
    by blast
  then show ?thesis
  proof cases
    case 1
    then show ?thesis using assms(3) by auto
  next
    case 2
    have np: "\<not> on_path entrance hdg m v"
    proof
      assume "on_path entrance hdg m v"
      then obtain k where "1 \<le> k" "k \<le> m" "v = entrance + scale hdg (int k)"
        by (auto simp: on_path_def)
      with 2(2) have "clear st hdg v"
        by blast
      with assms(3) show False
        by (simp add: clear_def)
    qed
    have "v \<noteq> entrance + scale hdg (int m)"
    proof
      assume "v = entrance + scale hdg (int m)"
      with 2(1) have "on_path entrance hdg m v"
        unfolding on_path_def by (intro exI [of _ m]) simp
      with np show False ..
    qed
    then show ?thesis
      using 2(3) np assms(3) by (auto simp: carve_grid_eq [OF assms(2)])
  qed
qed

lemma dig_corridor_spares_permawall_example:
  "\<exists>ok st'. dig_corridor
      ((init_map 9 9 (nth_default 0 [1]))
         \<lparr>grid := (grid (init_map 9 9 (nth_default 0 [1])))
            (Vector 4 2 \<mapsto> TILE_FLOOR, Vector 3 4 \<mapsto> TILE_PERMAWALL)\<rparr>)
      (Vector 4 5) (Vector 0 (- 1)) = Inr (ok, st')
    \<and> (grid st' (Vector 3 4) = Some TILE_PERMAWALL \<or> grid st' (Vector 3 4) = Some TILE_WALL)"
proof -
  define st where "st = (init_map 9 9 (nth_default 0 [1]))
         \<lparr>grid := (grid (init_map 9 9 (nth_default 0 [1])))
            (Vector 4 2 \<mapsto> TILE_FLOOR, Vector 3 4 \<mapsto> TILE_PERMAWALL)\<rparr>"
  have ok: "grid_ok st"
    by (auto simp: st_def grid_ok_def init_map_def is_in_bounds_or_border_def)
  have dir: "is_dir (Vector 0 (- 1))"
    by (simp add: is_dir_def)
  have "grid st (Vector 3 4) = Some TILE_PERMAWALL"
    by (simp add: st_def)
  from dig_corridor_spares_permawall [OF ok dir this, of "Vector 4 5"] show ?thesis
    unfolding st_def by simp
qed

lemma door_draw_range: "0 < n \<Longrightarrow> 1 \<le> door_draw st k n \<and> door_draw st k n \<le> n"
proof -
  assume "0 < n"
  then have "0 \<le> int (rand_src st (rand_calls st + k)) mod n
      \<and> int (rand_src st (rand_calls st + k)) mod n < n"
    by simp
  then show ?thesis
    unfolding door_draw_def by linarith
qed

lemma room_doorways_eq:
  "room_doorways st h c sx sy =
     (drawn st 3)\<lparr>doorways := doorways st @ room_doors st h c sx sy\<rparr>"
  by (simp add: room_doorways_def rand_range_def push_back_def drawn_def door_draw_def
      room_doors_def Let_def numeral_3_eq_3)

lemma grid_write_doorways: "grid_write st v t = Inr st' \<Longrightarrow> doorways st' = doorways st"
  by (auto dest: grid_write_Inr)

section \<open>Who appends to the worklist (C3)\<close>

text \<open>
  C3, as amended. \<open>dig_room\<close> returns only the success flag and pushes its doorways on
  the global vector itself: on an allocated grid a successful call leaves \<open>doorways\<close>
  extended by exactly three doorways, each with a door, and a failed call leaves it as it
  was. \<open>dig_corridor\<close>, for every entrance and unit heading, leaves \<open>doorways\<close> as it
  was, whether it places the corridor or not: it proposes no doorway.
\<close>

theorem generators_push_doorways:
  assumes "grid_ok st"
  shows "(\<exists>ok st'. dig_room st entrance hdg = Inr (ok, st')
        \<and> (if ok
            then \<exists>d1 d2 d3. doorways st' = doorways st @ [d1, d2, d3]
                   \<and> has_door d1 \<and> has_door d2 \<and> has_door d3
            else doorways st' = doorways st))
    \<and> (is_dir hdg \<longrightarrow>
          (\<exists>ok st'. dig_corridor st entrance hdg = Inr (ok, st')
             \<and> doorways st' = doorways st))"
proof -
  have "\<exists>ok st'. dig_room st entrance hdg = Inr (ok, st')
        \<and> (if ok
            then \<exists>d1 d2 d3. doorways st' = doorways st @ [d1, d2, d3]
                   \<and> has_door d1 \<and> has_door d2 \<and> has_door d3
            else doorways st' = doorways st)"
  proof (cases "room_fits st entrance hdg")
    case True
    then show ?thesis
      by (auto simp: dig_room_eq [OF assms] room_doorways_eq room_doors_def)
  next
    case False
    then show ?thesis
      by (auto simp: dig_room_eq [OF assms])
  qed
  moreover have "\<exists>ok st'. dig_corridor st entrance hdg = Inr (ok, st')
             \<and> doorways st' = doorways st" if "is_dir hdg"
    using dig_corridor_cases [OF assms that, of entrance] by (auto simp: drawn_def)
  ultimately show ?thesis
    by blast
qed

lemma run_result:
  assumes "\<not> isl x" and "fst (projr x)"
  shows "x = Inr (True, snd (projr x))"
proof -
  from assms(1) have "x = Inr (projr x)"
    by (cases x) simp_all
  moreover from assms(2) have "projr x = (True, snd (projr x))"
    by (cases "projr x") simp
  ultimately show ?thesis
    by simp
qed

theorem generators_push_doorways_witness:
  "(\<exists>st' d1 d2 d3.
     dig_room (init_map 20 20 (nth_default 0 [])) (Vector 10 19) (Vector 0 (- 1)) = Inr (True, st')
     \<and> doorways st' = doorways (init_map 20 20 (nth_default 0 [])) @ [d1, d2, d3]
     \<and> has_door d1 \<and> has_door d2 \<and> has_door d3)
   \<and> (\<exists>st'. dig_corridor
         ((init_map 9 9 (nth_default 0 [1]))
            \<lparr>grid := (grid (init_map 9 9 (nth_default 0 [1])))(Vector 4 2 \<mapsto> TILE_FLOOR),
             doorways := [\<lparr>location = Vector 4 5, heading = Vector 1 0, has_door = True\<rparr>]\<rparr>)
         (Vector 4 5) (Vector 0 (- 1)) = Inr (True, st')
       \<and> doorways st' = [\<lparr>location = Vector 4 5, heading = Vector 1 0, has_door = True\<rparr>])"
proof -
  let ?st = "init_map 20 20 (nth_default 0 [])"
  have t: "fst (projr (dig_room ?st (Vector 10 19) (Vector 0 (- 1))))"
    by code_simp
  from generators_push_doorways [OF grid_ok_init_map, of 20 20 "nth_default 0 []"
      "Vector 10 19" "Vector 0 (- 1)"]
  obtain ok st' where r: "dig_room ?st (Vector 10 19) (Vector 0 (- 1)) = Inr (ok, st')"
    and d: "if ok
            then \<exists>d1 d2 d3. doorways st' = doorways ?st @ [d1, d2, d3]
                   \<and> has_door d1 \<and> has_door d2 \<and> has_door d3
            else doorways st' = doorways ?st"
    by blast
  from t r have ok by simp
  with r d have room: "\<exists>st' d1 d2 d3.
     dig_room ?st (Vector 10 19) (Vector 0 (- 1)) = Inr (True, st')
     \<and> doorways st' = doorways ?st @ [d1, d2, d3]
     \<and> has_door d1 \<and> has_door d2 \<and> has_door d3"
    by auto
  define s9 where "s9 = (init_map 9 9 (nth_default 0 [1]))
            \<lparr>grid := (grid (init_map 9 9 (nth_default 0 [1])))(Vector 4 2 \<mapsto> TILE_FLOOR),
             doorways := [\<lparr>location = Vector 4 5, heading = Vector 1 0, has_door = True\<rparr>]\<rparr>"
  have ok9: "grid_ok s9"
    by (auto simp: s9_def grid_ok_def init_map_def is_in_bounds_or_border_def)
  have dir: "is_dir (Vector 0 (- 1))"
    by (simp add: is_dir_def)
  have t9: "fst (projr (dig_corridor s9 (Vector 4 5) (Vector 0 (- 1))))"
    unfolding s9_def by code_simp
  from generators_push_doorways [OF ok9, of "Vector 4 5" "Vector 0 (- 1)"] dir
  obtain ok' st9 where r9: "dig_corridor s9 (Vector 4 5) (Vector 0 (- 1)) = Inr (ok', st9)"
    and d9: "doorways st9 = doorways s9"
    by blast
  from t9 r9 have ok' by simp
  moreover have "doorways s9 = [\<lparr>location = Vector 4 5, heading = Vector 1 0, has_door = True\<rparr>]"
    by (simp add: s9_def)
  ultimately have "\<exists>st'. dig_corridor s9 (Vector 4 5) (Vector 0 (- 1)) = Inr (True, st')
       \<and> doorways st' = [\<lparr>location = Vector 4 5, heading = Vector 1 0, has_door = True\<rparr>]"
    using r9 d9 by auto
  with room show ?thesis
    unfolding s9_def by blast
qed

text \<open>
  On an empty 20 by 20 grid with an empty worklist, \<open>dig_room\<close> itself leaves three doorways
  in \<open>doorways\<close>: it is not free of effects on the worklist.
\<close>

theorem dig_room_changes_worklist:
  "\<exists>st'. dig_room (init_map 20 20 (nth_default 0 [])) (Vector 10 19) (Vector 0 (- 1))
       = Inr (True, st')
     \<and> doorways (init_map 20 20 (nth_default 0 [])) = []
     \<and> doorways st' =
         [\<lparr>location = Vector 9 18, heading = Vector (- 1) 0, has_door = True\<rparr>,
          \<lparr>location = Vector 10 15, heading = Vector 0 (- 1), has_door = True\<rparr>,
          \<lparr>location = Vector 13 18, heading = Vector 1 0, has_door = True\<rparr>]"
proof -
  let ?x = "dig_room (init_map 20 20 (nth_default 0 [])) (Vector 10 19) (Vector 0 (- 1))"
  have a: "\<not> isl ?x"
    by code_simp
  have b: "fst (projr ?x)"
    by code_simp
  have c: "doorways (snd (projr ?x)) =
         [\<lparr>location = Vector 9 18, heading = Vector (- 1) 0, has_door = True\<rparr>,
          \<lparr>location = Vector 10 15, heading = Vector 0 (- 1), has_door = True\<rparr>,
          \<lparr>location = Vector 13 18, heading = Vector 1 0, has_door = True\<rparr>]"
    by code_simp
  have d: "doorways (init_map 20 20 (nth_default 0 [])) = []"
    by (simp add: init_map_def)
  from run_result [OF a b] c d show ?thesis
    by blast
qed

section \<open>Runs that overwrite a permawall (C2) and keep a door on the border\<close>

declare dig_drain.simps [code]

lemma loop_result:
  assumes "x \<noteq> None" and "\<not> isl (the x)"
  shows "x = Some (Inr (projr (the x)))"
  using assms by (cases x) (auto simp: sum.collapse)

lemma step_result:
  assumes "\<not> isl x"
  shows "x = Inr (projr x)"
  using assms by (cases x) simp_all

lemma dig_steps_drain:
  "dig_steps n st = Inr st' \<Longrightarrow> doorways st' = [] \<Longrightarrow> dig_drain st = Some (Inr st')"
proof (induction n arbitrary: st)
  case 0
  then show ?case
    by (subst dig_drain.simps) simp
next
  case (Suc n)
  show ?case
  proof (cases "doorways st = []")
    case True
    with Suc.prems show ?thesis
      by (subst dig_drain.simps) simp
  next
    case False
    with Suc.prems(1) obtain s1 where s: "dig_step st = Inr s1" and r: "dig_steps n s1 = Inr st'"
      by (auto split: sum.splits)
    from Suc.IH [OF r Suc.prems(2)] have "dig_drain s1 = Some (Inr st')" .
    with False s show ?thesis
      by (subst dig_drain.simps) simp
  qed
qed

text \<open>
  A run on a 20 by 20 grid. The first iteration places a room whose corner (8, 15) becomes
  permawall; the second places a room against its left wall, and the rock it fills its
  footprint with turns (8, 15) into wall, which it still is when the run ends.
\<close>

theorem room_overwrites_permawall:
  "\<exists>st0 st1 st2 st3.
     dig_seed (init_map 20 20
       (nth_default 0 ([0, 0, 0, 0, 1, 1, 0, 0, 0, 0, 1, 0, 1, 0, 0, 0] @ replicate 55 1))) = Inr st0
     \<and> dig_step st0 = Inr st1 \<and> grid st1 (Vector 8 15) = Some TILE_PERMAWALL
     \<and> dig_step st1 = Inr st2 \<and> grid st2 (Vector 8 15) = Some TILE_WALL
     \<and> dig_loop (init_map 20 20
       (nth_default 0 ([0, 0, 0, 0, 1, 1, 0, 0, 0, 0, 1, 0, 1, 0, 0, 0] @ replicate 55 1)))
         = Some (Inr st3)
     \<and> grid st3 (Vector 8 15) = Some TILE_WALL"
proof -
  define w where "w = init_map 20 20
       (nth_default 0 ([0, 0, 0, 0, 1, 1, 0, 0, 0, 0, 1, 0, 1, 0, 0, 0] @ replicate 55 1))"
  define st0 where "st0 = projr (dig_seed w)"
  define st1 where "st1 = projr (dig_step st0)"
  define st2 where "st2 = projr (dig_step st1)"
  define st3 where "st3 = projr (the (dig_loop w))"
  have "\<not> isl (dig_seed w)"
    unfolding w_def by code_simp
  then have s0: "dig_seed w = Inr st0"
    unfolding st0_def by (rule step_result)
  have "\<not> isl (dig_step st0)"
    unfolding st0_def w_def by code_simp
  then have s1: "dig_step st0 = Inr st1"
    unfolding st1_def by (rule step_result)
  have g1: "grid st1 (Vector 8 15) = Some TILE_PERMAWALL"
    unfolding st1_def st0_def w_def by code_simp
  have "\<not> isl (dig_step st1)"
    unfolding st1_def st0_def w_def by code_simp
  then have s2: "dig_step st1 = Inr st2"
    unfolding st2_def by (rule step_result)
  have g2: "grid st2 (Vector 8 15) = Some TILE_WALL"
    unfolding st2_def st1_def st0_def w_def by code_simp
  have "dig_loop w \<noteq> None" "\<not> isl (the (dig_loop w))"
    unfolding w_def by code_simp+
  then have s3: "dig_loop w = Some (Inr st3)"
    unfolding st3_def by (rule loop_result)
  have g3: "grid st3 (Vector 8 15) = Some TILE_WALL"
    unfolding st3_def w_def by code_simp
  from s0 s1 g1 s2 g2 s3 g3 show ?thesis
    unfolding w_def by blast
qed

text \<open>
  C2 does not hold of the code. In this run on a 14 by 11 grid the first iteration places
  a room with the permawall corner (6, 6), next to its floor cell (7, 7). The cell is
  still permawall after seven iterations. The eighth places a corridor from (7, 4) heading
  (0, 1) whose flank \<open>fill_tile\<close> turns (6, 6) into wall; the thirteenth places a corridor
  from (4, 6) heading (1, 0) that digs (6, 6) and leaves a door there, which is what the
  grid holds when \<open>dig_loop\<close> returns.
\<close>

theorem permawall_becomes_door:
  "\<exists>st0 st1 st7 st8 st12 st13 stf.
     dig_seed (init_map 14 11 (nth_default 1 run14)) = Inr st0
     \<and> dig_steps 1 st0 = Inr st1 \<and> grid st1 (Vector 6 6) = Some TILE_PERMAWALL
     \<and> dig_steps 7 st0 = Inr st7 \<and> grid st7 (Vector 6 6) = Some TILE_PERMAWALL
     \<and> dig_step st7 = Inr st8 \<and> grid st8 (Vector 6 6) = Some TILE_WALL
     \<and> dig_steps 12 st0 = Inr st12 \<and> grid st12 (Vector 6 6) = Some TILE_WALL
     \<and> dig_step st12 = Inr st13 \<and> grid st13 (Vector 6 6) = Some TILE_DOOR
     \<and> dig_loop (init_map 14 11 (nth_default 1 run14)) = Some (Inr stf)
     \<and> grid stf (Vector 6 6) = Some TILE_DOOR \<and> grid stf (Vector 7 7) = Some TILE_FLOOR"
proof -
  define w where "w = init_map 14 11 (nth_default 1 run14)"
  define st0 where "st0 = projr (dig_seed w)"
  have "\<not> isl (dig_seed w)"
    unfolding w_def by code_simp
  then have s0: "dig_seed w = Inr st0"
    unfolding st0_def by (rule step_result)
  have "case dig_steps 1 st0 of Inl e \<Rightarrow> False
        | Inr st \<Rightarrow> grid st (Vector 6 6) = Some TILE_PERMAWALL"
    unfolding st0_def w_def by code_simp
  then obtain st1 where s1: "dig_steps 1 st0 = Inr st1"
    "grid st1 (Vector 6 6) = Some TILE_PERMAWALL"
    by (auto split: sum.splits)
  have "case dig_steps 7 st0 of Inl e \<Rightarrow> False
        | Inr st \<Rightarrow> grid st (Vector 6 6) = Some TILE_PERMAWALL
            \<and> (case dig_step st of Inl e \<Rightarrow> False
               | Inr st' \<Rightarrow> grid st' (Vector 6 6) = Some TILE_WALL)"
    unfolding st0_def w_def by code_simp
  then obtain st7 st8 where s7: "dig_steps 7 st0 = Inr st7"
    "grid st7 (Vector 6 6) = Some TILE_PERMAWALL"
    "dig_step st7 = Inr st8" "grid st8 (Vector 6 6) = Some TILE_WALL"
    by (auto split: sum.splits)
  have "case dig_steps 12 st0 of Inl e \<Rightarrow> False
        | Inr st \<Rightarrow> grid st (Vector 6 6) = Some TILE_WALL
            \<and> (case dig_step st of Inl e \<Rightarrow> False
               | Inr st' \<Rightarrow> grid st' (Vector 6 6) = Some TILE_DOOR)"
    unfolding st0_def w_def by code_simp
  then obtain st12 st13 where s12: "dig_steps 12 st0 = Inr st12"
    "grid st12 (Vector 6 6) = Some TILE_WALL"
    "dig_step st12 = Inr st13" "grid st13 (Vector 6 6) = Some TILE_DOOR"
    by (auto split: sum.splits)
  have "case dig_steps 16 st0 of Inl e \<Rightarrow> False
        | Inr st \<Rightarrow> doorways st = [] \<and> grid st (Vector 6 6) = Some TILE_DOOR
            \<and> grid st (Vector 7 7) = Some TILE_FLOOR"
    unfolding st0_def w_def by code_simp
  then obtain stf where sf: "dig_steps 16 st0 = Inr stf" "doorways stf = []"
    "grid stf (Vector 6 6) = Some TILE_DOOR" "grid stf (Vector 7 7) = Some TILE_FLOOR"
    by (auto split: sum.splits)
  from dig_steps_drain [OF sf(1,2)] s0 have "dig_loop w = Some (Inr stf)"
    by (simp add: dig_loop_def)
  with s0 s1 s7 s12 sf show ?thesis
    unfolding w_def by blast
qed

text \<open>
  In the run on the 20 by 20 grid the border cell (10, 19) is a door and the border cell
  (0, 0) is unknown,
  both after the statements before the loop and when the run ends.
\<close>

theorem border_door_and_unknown:
  "\<exists>st0 st3.
     dig_seed (init_map 20 20
       (nth_default 0 ([0, 0, 0, 0, 1, 1, 0, 0, 0, 0, 1, 0, 1, 0, 0, 0] @ replicate 55 1))) = Inr st0
     \<and> grid st0 (Vector 10 19) = Some TILE_DOOR
     \<and> grid st0 (Vector 0 0) = Some TILE_UNKNOWN
     \<and> dig_loop (init_map 20 20
       (nth_default 0 ([0, 0, 0, 0, 1, 1, 0, 0, 0, 0, 1, 0, 1, 0, 0, 0] @ replicate 55 1)))
         = Some (Inr st3)
     \<and> grid st3 (Vector 10 19) = Some TILE_DOOR
     \<and> grid st3 (Vector 0 0) = Some TILE_UNKNOWN"
proof -
  define w where "w = init_map 20 20
       (nth_default 0 ([0, 0, 0, 0, 1, 1, 0, 0, 0, 0, 1, 0, 1, 0, 0, 0] @ replicate 55 1))"
  define st0 where "st0 = projr (dig_seed w)"
  define st3 where "st3 = projr (the (dig_loop w))"
  have "\<not> isl (dig_seed w)"
    unfolding w_def by code_simp
  then have s0: "dig_seed w = Inr st0"
    unfolding st0_def by (rule step_result)
  have g0: "grid st0 (Vector 10 19) = Some TILE_DOOR" "grid st0 (Vector 0 0) = Some TILE_UNKNOWN"
    unfolding st0_def w_def by code_simp+
  have "dig_loop w \<noteq> None" "\<not> isl (the (dig_loop w))"
    unfolding w_def by code_simp+
  then have s3: "dig_loop w = Some (Inr st3)"
    unfolding st3_def by (rule loop_result)
  have g3: "grid st3 (Vector 10 19) = Some TILE_DOOR" "grid st3 (Vector 0 0) = Some TILE_UNKNOWN"
    unfolding st3_def w_def by code_simp+
  from s0 g0 s3 g3 show ?thesis
    unfolding w_def by blast
qed

section \<open>What a successful placement does to the invariant\<close>

lemma room_grid_out:
  assumes "e \<in> rect c h (sx + 2) (sy + 2)" "0 \<le> sx" "0 \<le> sy"
    and "v \<notin> rect c h (sx + 2) (sy + 2)"
  shows "room_grid G e h c sx sy v = G v"
proof -
  have "v \<notin> rect (c + h + right h) h sx sy"
    using assms(4) rect_inner [of c h sx sy] by blast
  moreover have "v \<noteq> c" "v \<noteq> c + scale (right h) (sx + 1)" "v \<noteq> c + scale h (sy + 1)"
    "v \<noteq> c + scale (right h) (sx + 1) + scale h (sy + 1)" "v \<noteq> e"
    using assms rect_corners [OF assms(2,3), of c h] by blast+
  ultimately show ?thesis
    using assms(4) by (simp add: room_grid_def paint_def)
qed

lemma room_grid_entrance: "room_grid G e h c sx sy e = Some TILE_DOOR"
  by (simp add: room_grid_def)

lemma room_grid_inner:
  "v \<in> rect (c + h + right h) h sx sy \<Longrightarrow> v \<noteq> e \<Longrightarrow> room_grid G e h c sx sy v = Some TILE_FLOOR"
  by (simp add: room_grid_def paint_def)

lemma room_grid_ring:
  "v \<in> rect c h (sx + 2) (sy + 2) \<Longrightarrow> v \<notin> rect (c + h + right h) h sx sy \<Longrightarrow> v \<noteq> e \<Longrightarrow>
     room_grid G e h c sx sy v = Some TILE_WALL \<or> room_grid G e h c sx sy v = Some TILE_PERMAWALL"
  by (simp add: room_grid_def paint_def)

lemma room_grid_alloc:
  assumes "e \<in> rect c h (sx + 2) (sy + 2)" "0 \<le> sx" "0 \<le> sy"
    and "\<forall>u \<in> rect c h (sx + 2) (sy + 2). G u \<noteq> None"
  shows "(room_grid G e h c sx sy v = None) = (G v = None)"
proof (cases "v \<in> rect c h (sx + 2) (sy + 2)")
  case True
  then have "room_grid G e h c sx sy v \<noteq> None"
    by (simp add: room_grid_def paint_def)
  with True assms(4) show ?thesis by blast
next
  case False
  with room_grid_out [OF assms(1-3)] show ?thesis by simp
qed

lemma open_at_room:
  assumes "e \<in> rect c h (sx + 2) (sy + 2)" "0 \<le> sx" "0 \<le> sy"
  shows "open_at (st\<lparr>grid := room_grid (grid st') e h c sx sy\<rparr>) v
    \<longleftrightarrow> v = e \<or> v \<in> rect (c + h + right h) h sx sy
        \<or> (v \<notin> rect c h (sx + 2) (sy + 2) \<and> open_at st' v)"
proof (cases "v = e")
  case True
  then show ?thesis
    by (simp add: open_at_def room_grid_entrance)
next
  case ne: False
  show ?thesis
  proof (cases "v \<in> rect (c + h + right h) h sx sy")
    case True
    with ne show ?thesis
      by (simp add: open_at_def room_grid_inner)
  next
    case ni: False
    show ?thesis
    proof (cases "v \<in> rect c h (sx + 2) (sy + 2)")
      case True
      from room_grid_ring [OF True ni ne, of G] ne ni True show ?thesis
        using room_grid_ring [OF True ni ne, of "grid st'"] by (auto simp: open_at_def)
    next
      case False
      with ne ni room_grid_out [OF assms False, of "grid st'"] show ?thesis
        by (simp add: open_at_def)
    qed
  qed
qed

lemma cross_in_bounds:
  assumes "is_dir h"
    and "is_in_bounds_or_border st (v + h)" "is_in_bounds_or_border st (v - h)"
    and "is_in_bounds_or_border st (v + right h)" "is_in_bounds_or_border st (v - right h)"
  shows "is_in_bounds st v"
  using assms by (auto simp: is_dir_cases is_in_bounds_def is_in_bounds_or_border_def)

lemma inner_in_bounds:
  assumes dir: "is_dir h"
    and R: "\<forall>u \<in> rect c h (sx + 2) (sy + 2). is_in_bounds_or_border st u"
    and v: "v \<in> rect (c + h + right h) h sx sy"
  shows "is_in_bounds st v"
proof -
  from v obtain i j where ij: "0 \<le> i" "i < sx" "0 \<le> j" "j < sy"
      "v = c + h + right h + scale (right h) i + scale h j"
    by (auto simp: rect_iff)
  have "v + h \<in> rect c h (sx + 2) (sy + 2)"
    using ij by (intro rectI [of "i + 1" _ "j + 2"]) (auto simp: Vector_eq_iff algebra_simps)
  moreover have "v - h \<in> rect c h (sx + 2) (sy + 2)"
    using ij by (intro rectI [of "i + 1" _ j]) (auto simp: Vector_eq_iff algebra_simps)
  moreover have "v + right h \<in> rect c h (sx + 2) (sy + 2)"
    using ij by (intro rectI [of "i + 2" _ "j + 1"]) (auto simp: Vector_eq_iff algebra_simps)
  moreover have "v - right h \<in> rect c h (sx + 2) (sy + 2)"
    using ij by (intro rectI [of i _ "j + 1"]) (auto simp: Vector_eq_iff algebra_simps)
  ultimately show ?thesis
    using R by (intro cross_in_bounds [OF dir]) blast+
qed

lemma door_back:
  assumes "is_dir n" "is_in_bounds st q"
  shows "is_in_bounds st (q + n) \<or> \<not> is_in_bounds_or_border st (q + n + n)"
  using assms by (auto simp: is_dir_cases is_in_bounds_def is_in_bounds_or_border_def)

lemma door_ok_behind:
  assumes "is_dir n" "is_in_bounds st q" "p = q + n" "is_in_bounds_or_border st p"
  shows "door_ok st \<lparr>location = p, heading = n, has_door = b\<rparr>"
  using assms door_back [OF assms(1,2)] by (auto simp: door_ok_def)

lemma wall_not_open: "wall_at st v \<Longrightarrow> \<not> open_at st v"
  by (auto simp: wall_at_def open_at_def wallish_def split: option.splits)

lemma alloc_wall_or_open: "grid st v \<noteq> None \<Longrightarrow> wall_at st v \<or> open_at st v"
proof -
  assume "grid st v \<noteq> None"
  then obtain t where "grid st v = Some t"
    by blast
  then show ?thesis
    by (cases t) (simp_all add: wall_at_def open_at_def wallish_def)
qed

lemma grid_ok_alloc: "grid_ok st \<Longrightarrow> is_in_bounds_or_border st v \<Longrightarrow> grid st v \<noteq> None"
  by (simp add: grid_ok_def)

lemma dig_room_grows:
  assumes ok: "grid_ok st" and dir: "is_dir h" and r: "dig_room st e h = Inr (True, st')"
  shows "grows st e st' \<and> is_in_bounds_or_border st (e + h)"
proof -
  define sx where "sx = room_sx st"
  define sy where "sy = room_sy st"
  define c where "c = room_corner st e h"
  define S where "S = (drawn st 3)\<lparr>grid := room_grid (grid st) e h c sx sy\<rparr>"
  let ?R = "rect c h (sx + 2) (sy + 2)"
  let ?I = "rect (c + h + right h) h sx sy"
  have sx: "3 \<le> sx" "0 \<le> sx" "0 < sx" and sy: "3 \<le> sy" "0 \<le> sy" "0 < sy"
    using room_sx_range [of st] room_sy_range [of st] by (auto simp: sx_def sy_def)
  have off: "1 \<le> room_off st" "room_off st \<le> sx"
    using room_off_range [of st] by (auto simp: sx_def)
  have ce: "c = e + scale (left h) (room_off st)"
    by (simp add: c_def room_corner_def)
  from r have fits: "room_fits st e h"
    and st': "st' = room_doorways S h c sx sy"
    unfolding dig_room_eq [OF ok] S_def sx_def sy_def c_def
    by (auto split: if_splits)
  have cells: "\<forall>u \<in> ?R. cell_ok st e u"
    using fits by (simp add: room_fits_def sx_def sy_def c_def)
  have inb: "\<forall>u \<in> ?R. is_in_bounds_or_border st u"
    using cells by (simp add: cell_ok_def)
  have al: "\<forall>u \<in> ?R. grid st u \<noteq> None"
    using inb ok by (simp add: grid_ok_def)
  have eR: "e \<in> ?R"
    unfolding ce using off sy by (intro rect_entrance) auto
  have g: "grid st' = room_grid (grid st) e h c sx sy"
    by (simp add: st' room_doorways_eq S_def)
  have op: "\<And>v. open_at st' v \<longleftrightarrow> v = e \<or> v \<in> ?I \<or> (v \<notin> ?R \<and> open_at st v)"
  proof -
    fix v
    have "open_at st' v = open_at (st\<lparr>grid := room_grid (grid st) e h c sx sy\<rparr>) v"
      by (simp add: open_at_def g)
    then show "open_at st' v \<longleftrightarrow> v = e \<or> v \<in> ?I \<or> (v \<notin> ?R \<and> open_at st v)"
      using open_at_room [OF eR sx(2) sy(2), of st st v] by simp
  qed
  have sizes: "size_x st' = size_x st" "size_y st' = size_y st" "rand_src st' = rand_src st"
    by (simp_all add: st' room_doorways_eq S_def)
  have ok': "grid_ok st'"
    unfolding grid_ok_def
  proof
    fix v
    have "(grid st' v \<noteq> None) = (grid st v \<noteq> None)"
      using room_grid_alloc [OF eR sx(2) sy(2) al, of v] by (simp add: g)
    then show "(grid st' v \<noteq> None) = is_in_bounds_or_border st' v"
      using ok by (simp add: grid_ok_def is_in_bounds_or_border_def sizes)
  qed
  have mono: "\<forall>v. open_at st v \<longrightarrow> open_at st' v"
  proof (intro allI impI)
    fix v assume o: "open_at st v"
    show "open_at st' v"
    proof (cases "v \<in> ?R")
      case True
      with cells have "wall_at st v \<or> v = e"
        by (auto simp: cell_ok_def)
      with o wall_not_open have "v = e"
        by blast
      then show ?thesis
        by (simp add: op)
    next
      case False
      with o show ?thesis
        by (simp add: op)
    qed
  qed
  have prog: "\<exists>v. wall_at st v \<and> open_at st' v"
  proof -
    let ?v = "c + h + right h"
    have vI: "?v \<in> ?I"
      using sx sy by (intro rectI [of 0 _ 0]) (auto simp: Vector_eq_iff)
    have ne: "?v \<noteq> e"
      unfolding ce using dir by (auto simp: Vector_eq_iff is_dir_cases)
    have "?v \<in> ?R"
      using vI rect_inner [of c h sx sy] by blast
    with cells ne have "wall_at st ?v"
      by (auto simp: cell_ok_def)
    moreover have "open_at st' ?v"
      using vI by (simp add: op)
    ultimately show ?thesis
      by blast
  qed
  have brd: "\<forall>v. open_at st' v \<and> \<not> open_at st v \<longrightarrow> is_in_bounds st v \<or> v = e"
    using inner_in_bounds [OF dir inb] by (auto simp: op)
  have doors: "\<exists>ds. doorways st' = doorways st @ ds \<and> length ds \<le> 3
      \<and> (\<forall>d \<in> set ds. door_ok st d)"
  proof -
    define r1 where "r1 = door_draw S 0 sy"
    define r2 where "r2 = door_draw S 1 sx"
    define r3 where "r3 = door_draw S 2 sy"
    have r1: "1 \<le> r1" "r1 \<le> sy" and r2: "1 \<le> r2" "r2 \<le> sx" and r3: "1 \<le> r3" "r3 \<le> sy"
      using door_draw_range [OF sy(3), of S] door_draw_range [OF sx(3), of S]
      by (auto simp: r1_def r2_def r3_def)
    have inI: "\<And>q. q \<in> ?I \<Longrightarrow> is_in_bounds st q"
      by (rule inner_in_bounds [OF dir inb])
    have d1: "door_ok st \<lparr>location = c + scale h r1, heading = left h, has_door = True\<rparr>"
    proof (rule door_ok_behind [of _ _ "c + h + right h + scale (right h) 0 + scale h (r1 - 1)"])
      show "is_dir (left h)"
        by (rule is_dir_left [OF dir])
      show "is_in_bounds st (c + h + right h + scale (right h) 0 + scale h (r1 - 1))"
        using r1 sx by (intro inI rectI [of 0 _ "r1 - 1"]) auto
      show "c + scale h r1 = c + h + right h + scale (right h) 0 + scale h (r1 - 1) + left h"
        by (simp add: Vector_eq_iff algebra_simps)
      show "is_in_bounds_or_border st (c + scale h r1)"
        using r1 sx sy
        by (intro inb [rule_format] rectI [of 0 _ r1]) (auto simp: Vector_eq_iff)
    qed
    have d2: "door_ok st \<lparr>location = c + scale h (sy + 1) + scale (right h) r2, heading = h,
        has_door = True\<rparr>"
    proof (rule door_ok_behind [of _ _ "c + h + right h + scale (right h) (r2 - 1) + scale h (sy - 1)"])
      show "is_dir h"
        by (rule dir)
      show "is_in_bounds st (c + h + right h + scale (right h) (r2 - 1) + scale h (sy - 1))"
        using r2 sy by (intro inI rectI [of "r2 - 1" _ "sy - 1"]) auto
      show "c + scale h (sy + 1) + scale (right h) r2
          = c + h + right h + scale (right h) (r2 - 1) + scale h (sy - 1) + h"
        by (simp add: Vector_eq_iff algebra_simps)
      show "is_in_bounds_or_border st (c + scale h (sy + 1) + scale (right h) r2)"
        using r2 sx sy
        by (intro inb [rule_format] rectI [of r2 _ "sy + 1"]) (auto simp: Vector_eq_iff)
    qed
    have d3: "door_ok st \<lparr>location = c + scale (right h) (sx + 1) + scale h r3,
        heading = right h, has_door = True\<rparr>"
    proof (rule door_ok_behind [of _ _ "c + h + right h + scale (right h) (sx - 1) + scale h (r3 - 1)"])
      show "is_dir (right h)"
        by (rule is_dir_right [OF dir])
      show "is_in_bounds st (c + h + right h + scale (right h) (sx - 1) + scale h (r3 - 1))"
        using r3 sx by (intro inI rectI [of "sx - 1" _ "r3 - 1"]) auto
      show "c + scale (right h) (sx + 1) + scale h r3
          = c + h + right h + scale (right h) (sx - 1) + scale h (r3 - 1) + right h"
        by (simp add: Vector_eq_iff algebra_simps)
      show "is_in_bounds_or_border st (c + scale (right h) (sx + 1) + scale h r3)"
        using r3 sx sy
        by (intro inb [rule_format] rectI [of "sx + 1" _ r3]) (auto simp: Vector_eq_iff)
    qed
    have "doorways st' = doorways st @ room_doors S h c sx sy"
      by (simp add: st' room_doorways_eq S_def)
    moreover have "length (room_doors S h c sx sy) \<le> 3"
      by (simp add: room_doors_def)
    moreover have "\<forall>d \<in> set (room_doors S h c sx sy). door_ok st d"
      using d1 d2 d3 by (simp add: room_doors_def r1_def r2_def r3_def)
    ultimately show ?thesis
      by blast
  qed
  have "e + h \<in> ?R"
    unfolding ce using off sy
    by (intro rectI [of "room_off st" _ 1]) (auto simp: Vector_eq_iff)
  with inb have "is_in_bounds_or_border st (e + h)"
    by blast
  with sizes ok' mono prog brd doors show ?thesis
    by (simp add: grows_def)
qed

lemma in_bounds_border: "is_in_bounds st v \<Longrightarrow> is_in_bounds_or_border st v"
  by (simp add: is_in_bounds_def is_in_bounds_or_border_def)

lemma dig_corridor_grows:
  assumes ok: "grid_ok st" and dir: "is_dir h" and r: "dig_corridor st e h = Inr (True, st')"
  shows "grows st e st' \<and> is_in_bounds_or_border st (e + h)"
proof -
  from dig_corridor_cases [OF ok dir, of e] r obtain m where m: "2 \<le> m"
    and cl: "\<forall>k. 1 \<le> k \<and> k \<le> m \<longrightarrow> clear st h (e + scale h (int k))"
    and st': "st' = (drawn st 1)\<lparr>grid := (carve_grid (grid st) e h m)
                    (e + scale h (int m) \<mapsto> TILE_DOOR)\<rparr>"
    by auto
  have pathc: "\<And>v. on_path e h m v \<Longrightarrow> clear st h v"
    using cl by (auto simp: on_path_def)
  have flankw: "\<And>v. on_flank e h m v \<Longrightarrow> wall_at st v"
    using cl by (auto simp: on_flank_def clear_def)
  have last: "on_path e h m (e + scale h (int m))"
    using m unfolding on_path_def by (intro exI [of _ m]) simp
  have g: "\<And>v. grid st' v =
      (if v = e + scale h (int m) then Some TILE_DOOR
       else if on_path e h m v then Some TILE_FLOOR
       else if on_flank e h m v then Some TILE_WALL else grid st v)"
    by (simp add: st' carve_grid_eq [OF dir])
  have op: "\<And>v. open_at st' v \<longleftrightarrow> on_path e h m v \<or> (\<not> on_flank e h m v \<and> open_at st v)"
    using last by (auto simp: open_at_def g)
  have sizes: "size_x st' = size_x st" "size_y st' = size_y st" "rand_src st' = rand_src st"
    by (simp_all add: st')
  have ok': "grid_ok st'"
    unfolding grid_ok_def
  proof
    fix v
    have "on_path e h m v \<Longrightarrow> grid st v \<noteq> None"
      using pathc [of v] in_bounds_alloc [OF ok, of v] by (simp add: clear_def)
    moreover have "on_flank e h m v \<Longrightarrow> grid st v \<noteq> None"
      using flankw [of v] by (auto simp: wall_at_def split: option.splits)
    ultimately have "(grid st' v \<noteq> None) = (grid st v \<noteq> None)"
      using last by (auto simp: g)
    then show "(grid st' v \<noteq> None) = is_in_bounds_or_border st' v"
      using ok by (simp add: grid_ok_def is_in_bounds_or_border_def sizes)
  qed
  have mono: "\<forall>v. open_at st v \<longrightarrow> open_at st' v"
  proof (intro allI impI)
    fix v assume o: "open_at st v"
    have "\<not> on_flank e h m v"
      using flankw [of v] wall_not_open [of st v] o by blast
    with o show "open_at st' v"
      by (simp add: op)
  qed
  have first: "on_path e h m (e + scale h (int 1))"
    using m unfolding on_path_def by (intro exI [of _ 1]) simp
  have prog: "\<exists>v. wall_at st v \<and> open_at st' v"
    using pathc [OF first] first by (auto simp: op clear_def)
  have brd: "\<forall>v. open_at st' v \<and> \<not> open_at st v \<longrightarrow> is_in_bounds st v \<or> v = e"
    using pathc by (auto simp: op clear_def)
  have doors: "\<exists>ds. doorways st' = doorways st @ ds \<and> length ds \<le> 3
      \<and> (\<forall>d \<in> set ds. door_ok st d)"
    by (intro exI [of _ "[]"]) (simp add: st')
  have "is_in_bounds st (e + h)"
    using pathc [OF first] by (simp add: clear_def)
  then have "is_in_bounds_or_border st (e + h)"
    by (rule in_bounds_border)
  with sizes ok' mono prog brd doors show ?thesis
    by (simp add: grows_def)
qed

lemma open_at_drawn [simp]: "open_at (drawn st k) v = open_at st v"
  by (simp add: open_at_def)

lemma entrance0_drawn [simp]: "entrance0 (drawn st k) = entrance0 st"
  by (simp add: entrance0_def)

lemma is_in_bounds_or_border_drawn [simp]:
  "is_in_bounds_or_border (drawn st k) v = is_in_bounds_or_border st v"
  by (simp add: is_in_bounds_or_border_def)

lemma door_ok_drawn [simp]: "door_ok (drawn st k) d = door_ok st d"
  by (simp add: door_ok_def)

lemma grows_drawn: "grows (drawn st k) e st' \<Longrightarrow> grows st e st'"
  by (simp add: grows_def)

lemma dig_room_total:
  assumes "grid_ok st"
  shows "\<exists>b st'. dig_room st e h = Inr (b, st') \<and> (\<not> b \<longrightarrow> st' = drawn st 3)"
  by (auto simp: dig_room_eq [OF assms])

lemma dig_corridor_total:
  assumes "grid_ok st" "is_dir h"
  shows "\<exists>b st'. dig_corridor st e h = Inr (b, st') \<and> (\<not> b \<longrightarrow> st' = drawn st 1)"
  using dig_corridor_cases [OF assms, of e] by auto

lemma dig_random_spec:
  assumes dir: "is_dir h"
  shows "grid_ok st \<Longrightarrow>
    \<exists>b st'. dig_random n st e h = Inr (b, st')
      \<and> (if b then grows st e st' \<and> is_in_bounds_or_border st (e + h)
          else \<exists>k. st' = drawn st k)"
proof (induction n arbitrary: st)
  case 0
  have "st = drawn st 0"
    by simp
  then show ?case
    by (metis dig_random.simps(1))
next
  case (Suc n)
  define st1 where "st1 = drawn st 1"
  define c where "c = int (rand_src st (rand_calls st)) mod 2"
  have rr: "rand_range st 0 1 = (c, st1)"
    by (simp add: rand_range_def drawn_def st1_def c_def)
  have ok1: "grid_ok st1"
    using Suc.prems by (simp add: st1_def)
  define att where "att = (if c = 1 then dig_corridor st1 e h else dig_room st1 e h)"
  have unf: "dig_random (Suc n) st e h =
      (case att of Inl e \<Rightarrow> Inl e
       | Inr (success, st2) \<Rightarrow> if success then Inr (True, st2) else dig_random n st2 e h)"
    by (simp only: dig_random.simps rr Let_def prod.case att_def)
  have tot: "\<exists>b st2. att = Inr (b, st2) \<and> (\<not> b \<longrightarrow> (\<exists>k. st2 = drawn st1 k))"
    using dig_room_total [OF ok1, of e h] dig_corridor_total [OF ok1 dir, of e]
    unfolding att_def by auto
  then obtain b st2 where t: "att = Inr (b, st2)" and f: "\<not> b \<longrightarrow> (\<exists>k. st2 = drawn st1 k)"
    by blast
  show ?case
  proof (cases b)
    case True
    with t have "dig_room st1 e h = Inr (True, st2) \<or> dig_corridor st1 e h = Inr (True, st2)"
      unfolding att_def by (auto split: if_splits)
    then have "grows st1 e st2 \<and> is_in_bounds_or_border st1 (e + h)"
      using dig_room_grows [OF ok1 dir] dig_corridor_grows [OF ok1 dir] by blast
    then have "grows st e st2 \<and> is_in_bounds_or_border st (e + h)"
      unfolding st1_def using grows_drawn by auto
    moreover have "dig_random (Suc n) st e h = Inr (True, st2)"
      using True t by (simp only: unf sum.case prod.case if_True)
    ultimately show ?thesis
      by (intro exI [of _ True] exI [of _ st2]) simp
  next
    case False
    with f obtain k where k: "st2 = drawn st (1 + k)"
      by (auto simp: st1_def)
    then have ok2: "grid_ok st2"
      using Suc.prems by simp
    from Suc.IH [OF ok2] obtain b' st3 where
      r: "dig_random n st2 e h = Inr (b', st3)"
      and p: "if b' then grows st2 e st3 \<and> is_in_bounds_or_border st2 (e + h)
          else \<exists>k. st3 = drawn st2 k"
      by blast
    have "if b' then grows st e st3 \<and> is_in_bounds_or_border st (e + h)
          else \<exists>k. st3 = drawn st k"
    proof (cases b')
      case True
      with p show ?thesis
        unfolding k using grows_drawn by auto
    next
      case False
      with p obtain k' where "st3 = drawn st (1 + k + k')"
        by (auto simp: k)
      with False show ?thesis
        by auto
    qed
    moreover have "dig_random (Suc n) st e h = Inr (b', st3)"
      using False t r by (simp only: unf sum.case prod.case if_False)
    ultimately show ?thesis
      by (intro exI [of _ b'] exI [of _ st3]) simp
  qed
qed

lemma finite_walls: "grid_ok st \<Longrightarrow> finite {v. wall_at st v}"
proof -
  assume ok: "grid_ok st"
  have "{v. wall_at st v} \<subseteq> (\<lambda>(a, b). Vector a b) ` ({0..<size_x st} \<times> {0..<size_y st})"
  proof
    fix v assume "v \<in> {v. wall_at st v}"
    then have "grid st v \<noteq> None"
      by (auto simp: wall_at_def split: option.splits)
    with ok have "is_in_bounds_or_border st v"
      by (simp add: grid_ok_def)
    then have "(vx v, vy v) \<in> {0..<size_x st} \<times> {0..<size_y st}"
      by (simp add: is_in_bounds_or_border_def)
    moreover have "v = (\<lambda>(a, b). Vector a b) (vx v, vy v)"
      by simp
    ultimately show "v \<in> (\<lambda>(a, b). Vector a b) ` ({0..<size_x st} \<times> {0..<size_y st})"
      by (rule rev_image_eqI)
  qed
  then show ?thesis
    by (rule finite_subset) simp
qed

lemma walls_less:
  assumes ok: "grid_ok st" and ok': "grid_ok st'"
    and sz: "size_x st' = size_x st" "size_y st' = size_y st"
    and mono: "\<forall>v. open_at st v \<longrightarrow> open_at st' v"
    and prog: "\<exists>v. wall_at st v \<and> open_at st' v"
  shows "walls st' < walls st"
proof -
  have sub: "{v. wall_at st' v} \<subseteq> {v. wall_at st v}"
  proof
    fix v assume "v \<in> {v. wall_at st' v}"
    then have w: "wall_at st' v"
      by simp
    then have "grid st' v \<noteq> None"
      by (auto simp: wall_at_def split: option.splits)
    with ok' have "is_in_bounds_or_border st v"
      by (simp add: grid_ok_def is_in_bounds_or_border_def sz)
    with ok have "grid st v \<noteq> None"
      by (simp add: grid_ok_def)
    then have "wall_at st v \<or> open_at st v"
      by (rule alloc_wall_or_open)
    moreover have "\<not> open_at st v"
      using mono w wall_not_open by blast
    ultimately show "v \<in> {v. wall_at st v}"
      by simp
  qed
  from prog obtain v where "wall_at st v" "open_at st' v"
    by blast
  then have "v \<in> {v. wall_at st v}" "v \<notin> {v. wall_at st' v}"
    using wall_not_open by auto
  with sub have "{v. wall_at st' v} \<subset> {v. wall_at st v}"
    by blast
  then show ?thesis
    unfolding walls_def by (rule psubset_card_mono [OF finite_walls [OF ok]])
qed

section \<open>One iteration of the loop, and the loop\<close>

lemma erase_length: "i < length xs \<Longrightarrow> length (erase xs i) = length xs - 1"
  by (simp add: erase_def)

lemma erase_set: "set (erase xs i) \<subseteq> set xs"
  by (auto simp: erase_def dest: in_set_takeD in_set_dropD)

lemma finish_spec:
  assumes ok: "grid_ok st" and loc: "is_in_bounds_or_border st p"
  shows "\<exists>st'. (if b then door_tile st p
                else (case is_wall st p of Inl e \<Rightarrow> Inl e
                      | Inr w \<Rightarrow> if w then dig_tile st p else Inr st)) = Inr st'
      \<and> size_x st' = size_x st \<and> size_y st' = size_y st \<and> rand_src st' = rand_src st
      \<and> doorways st' = doorways st \<and> grid_ok st'
      \<and> (\<forall>v. open_at st v \<longrightarrow> open_at st' v)
      \<and> (\<forall>v. open_at st' v \<longrightarrow> open_at st v \<or> v = p)"
proof -
  have al: "grid st p \<noteq> None"
    by (rule grid_ok_alloc [OF ok loc])
  have wr: "\<And>t. t = TILE_DOOR \<or> t = TILE_FLOOR \<Longrightarrow>
      grid_ok (st\<lparr>grid := (grid st)(p \<mapsto> t)\<rparr>)
      \<and> (\<forall>v. open_at st v \<longrightarrow> open_at (st\<lparr>grid := (grid st)(p \<mapsto> t)\<rparr>) v)
      \<and> (\<forall>v. open_at (st\<lparr>grid := (grid st)(p \<mapsto> t)\<rparr>) v \<longrightarrow> open_at st v \<or> v = p)"
    using al by (auto simp: open_at_def split: if_splits intro!: grid_ok_write [OF ok])
  show ?thesis
  proof (cases b)
    case True
    then show ?thesis
      using wr [of TILE_DOOR] by (simp add: door_tile_def grid_write_ok [OF al])
  next
    case False
    show ?thesis
    proof (cases "wall_at st p")
      case True
      with False show ?thesis
        using wr [of TILE_FLOOR] ok
        by (simp add: dig_tile_def grid_write_ok [OF al] is_wall_ok [OF al])
    next
      case nw: False
      with False show ?thesis
        using ok by (simp add: is_wall_ok [OF al])
    qed
  qed
qed

lemma dig_step_spec:
  assumes inv: "inv st" and ne: "doorways st \<noteq> []"
  shows "\<exists>st'. dig_step st = Inr st' \<and> inv st'
    \<and> size_x st' = size_x st \<and> size_y st' = size_y st \<and> rand_src st' = rand_src st
    \<and> 3 * walls st' + length (doorways st') < 3 * walls st + length (doorways st)
    \<and> (\<exists>i ds. i < length (doorways st) \<and> doorways st' = erase (doorways st) i @ ds
          \<and> length ds \<le> 3)"
proof -
  define n where "n = length (doorways st)"
  define i where "i = nat (int (rand_src st (rand_calls st)) mod int n)"
  define st1 where "st1 = drawn st 1"
  define door where "door = doorways st ! i"
  define p where "p = location door"
  define h where "h = heading door"
  define st2 where "st2 = st1\<lparr>doorways := erase (doorways st) i\<rparr>"
  have ok: "grid_ok st" and dok: "\<forall>d \<in> set (doorways st). door_ok st d"
    and brd: "\<forall>v. open_at st v \<longrightarrow> is_in_bounds st v \<or> v = entrance0 st"
    using inv by (auto simp: inv_def)
  have n: "0 < n"
    using ne by (simp add: n_def)
  have i: "i < n"
    using n unfolding i_def by (simp add: nat_less_iff)
  have rr: "rand_range st 0 (int n - 1)
      = (int (rand_src st (rand_calls st)) mod int n, st1)"
    by (simp add: rand_range_def drawn_def st1_def n_def)
  have d1: "doorways st1 = doorways st"
    by (simp add: st1_def)
  have unf: "dig_step st =
      (case dig_random max_tries st2 p h of Inl e \<Rightarrow> Inl e
       | Inr (success, st3) \<Rightarrow>
           if success
           then (if has_door door then door_tile st3 p
                 else (case is_wall st3 p of Inl e \<Rightarrow> Inl e
                       | Inr w \<Rightarrow> if w then dig_tile st3 p else Inr st3))
           else Inr st3)"
    using i unfolding dig_step_def n_def [symmetric] rr Let_def prod.case d1 i_def [symmetric]
      n_def [symmetric] door_def [symmetric] p_def [symmetric] h_def [symmetric]
      st2_def [symmetric]
    by simp
  have "door \<in> set (doorways st)"
    using i by (simp add: door_def n_def)
  with dok have dk: "door_ok st door"
    by blast
  then have dir: "is_dir h" and pin: "is_in_bounds_or_border st p"
    and pb: "is_in_bounds st p \<or> \<not> is_in_bounds_or_border st (p + h) \<or> p = entrance0 st"
    by (auto simp: door_ok_def p_def h_def)
  have st2: "grid st2 = grid st" "size_x st2 = size_x st" "size_y st2 = size_y st"
    "rand_src st2 = rand_src st" "doorways st2 = erase (doorways st) i"
    by (simp_all add: st2_def st1_def)
  have ok2: "grid_ok st2"
    using ok by (simp add: grid_ok_def is_in_bounds_or_border_def st2)
  have same2: "\<And>v. open_at st2 v = open_at st v" "\<And>v. wall_at st2 v = wall_at st v"
    "\<And>v. is_in_bounds st2 v = is_in_bounds st v"
    "\<And>v. is_in_bounds_or_border st2 v = is_in_bounds_or_border st v"
    "\<And>d. door_ok st2 d = door_ok st d"
    by (simp_all add: open_at_def wall_at_def is_in_bounds_def is_in_bounds_or_border_def
        door_ok_def entrance0_def st2)
  have len2: "length (doorways st2) = n - 1"
    using i by (simp add: st2 erase_length n_def)
  have dok2: "\<forall>d \<in> set (doorways st2). door_ok st d"
    using dok erase_set [of "doorways st" i] by (auto simp: st2)
  from dig_random_spec [OF dir ok2, of max_tries p] obtain b st3 where
    r: "dig_random max_tries st2 p h = Inr (b, st3)"
    and rp: "if b then grows st2 p st3 \<and> is_in_bounds_or_border st2 (p + h)
          else \<exists>k. st3 = drawn st2 k"
    by blast
  show ?thesis
  proof (cases b)
    case False
    with rp obtain k where k: "st3 = drawn st2 k"
      by auto
    have res: "dig_step st = Inr st3"
      using False r by (simp add: unf)
    have "inv st3"
      using ok2 dok2 brd
      by (simp add: inv_def k same2 st2 is_in_bounds_def entrance0_def door_ok_def
          is_in_bounds_or_border_def)
    moreover have "walls st3 = walls st"
      by (simp add: walls_def k same2)
    moreover have "length (doorways st3) < length (doorways st)"
      using n len2 by (simp add: k n_def)
    moreover have "\<exists>i ds. i < length (doorways st) \<and> doorways st3 = erase (doorways st) i @ ds
          \<and> length ds \<le> 3"
      using i by (intro exI [of _ i] exI [of _ "[]"]) (simp add: k st2 n_def)
    ultimately show ?thesis
      using res by (simp add: k st2)
  next
    case True
    with rp have gr: "grows st2 p st3" and ph: "is_in_bounds_or_border st (p + h)"
      by (auto simp: same2)
    from gr have sz3: "size_x st3 = size_x st" "size_y st3 = size_y st" "rand_src st3 = rand_src st"
      and ok3: "grid_ok st3"
      and mono3: "\<forall>v. open_at st v \<longrightarrow> open_at st3 v"
      and prog3: "\<exists>v. wall_at st v \<and> open_at st3 v"
      and new3: "\<forall>v. open_at st3 v \<and> \<not> open_at st v \<longrightarrow> is_in_bounds st v \<or> v = p"
      by (auto simp: grows_def same2 st2)
    from gr obtain ds where ds: "doorways st3 = erase (doorways st) i @ ds" "length ds \<le> 3"
      "\<forall>d \<in> set ds. door_ok st d"
      by (auto simp: grows_def same2 st2)
    have pin3: "is_in_bounds_or_border st3 p"
      using pin by (simp add: is_in_bounds_or_border_def sz3)
    from finish_spec [OF ok3 pin3, of "has_door door"] obtain st4 where
      f: "(if has_door door then door_tile st3 p
           else (case is_wall st3 p of Inl e \<Rightarrow> Inl e
                 | Inr w \<Rightarrow> if w then dig_tile st3 p else Inr st3)) = Inr st4"
      and sz4: "size_x st4 = size_x st3" "size_y st4 = size_y st3" "rand_src st4 = rand_src st3"
      and d4: "doorways st4 = doorways st3" and ok4: "grid_ok st4"
      and mono4: "\<forall>v. open_at st3 v \<longrightarrow> open_at st4 v"
      and new4: "\<forall>v. open_at st4 v \<longrightarrow> open_at st3 v \<or> v = p"
      by blast
    have res: "dig_step st = Inr st4"
      using True r f by (simp add: unf)
    have pe: "is_in_bounds st p \<or> p = entrance0 st"
      using pb ph by blast
    have same4: "\<And>v. is_in_bounds st4 v = is_in_bounds st v" "entrance0 st4 = entrance0 st"
      "\<And>d. door_ok st4 d = door_ok st d"
      by (simp_all add: is_in_bounds_def entrance0_def door_ok_def is_in_bounds_or_border_def
          sz3 sz4)
    have "\<forall>v. open_at st4 v \<longrightarrow> is_in_bounds st v \<or> v = entrance0 st"
      using new4 new3 brd pe by blast
    moreover have "\<forall>d \<in> set (doorways st4). door_ok st d"
      using dok2 ds by (auto simp: d4 st2)
    ultimately have "inv st4"
      using ok4 by (simp add: inv_def same4)
    moreover have "walls st4 < walls st"
    proof (rule walls_less [OF ok ok4])
      show "size_x st4 = size_x st" "size_y st4 = size_y st"
        by (simp_all add: sz3 sz4)
      show "\<forall>v. open_at st v \<longrightarrow> open_at st4 v"
        using mono3 mono4 by blast
      show "\<exists>v. wall_at st v \<and> open_at st4 v"
        using prog3 mono4 by blast
    qed
    moreover have "length (doorways st4) \<le> length (doorways st) + 2"
      using ds(2) i by (simp add: d4 ds(1) erase_length n_def)
    moreover have "\<exists>i ds. i < length (doorways st) \<and> doorways st4 = erase (doorways st) i @ ds
          \<and> length ds \<le> 3"
      using i ds(2) by (intro exI [of _ i] exI [of _ ds]) (simp add: d4 ds(1) n_def)
    ultimately show ?thesis
      using res by (simp add: sz3 sz4)
  qed
qed

lemma reach_first:
  assumes "reach st1 st'" and "doorways st \<noteq> []" and "dig_step st = Inr st1"
  shows "reach st st'"
  using assms
proof (induction rule: reach.induct)
  case start
  show ?case
    by (rule reach.step [OF reach.start assms(2,3)])
next
  case (step sa sb)
  then show ?case
    by (blast intro: reach.step)
qed

lemma reach_inv:
  assumes "reach st0 st" and "inv st0"
  shows "inv st \<and> size_x st = size_x st0 \<and> size_y st = size_y st0"
  using assms
proof (induction rule: reach.induct)
  case start
  then show ?case by simp
next
  case (step sa sb)
  then have "inv sa" "size_x sa = size_x st0" "size_y sa = size_y st0"
    by auto
  with dig_step_spec [OF \<open>inv sa\<close> step.hyps(2)] step.hyps(3) show ?case
    by auto
qed

lemma drain_terminates:
  "inv st \<Longrightarrow> \<exists>st'. dig_drain st = Some (Inr st') \<and> doorways st' = [] \<and> reach st st'"
proof (induction "3 * walls st + length (doorways st)" arbitrary: st rule: less_induct)
  case less
  show ?case
  proof (cases "doorways st = []")
    case True
    then have "dig_drain st = Some (Inr st)"
      by (subst dig_drain.simps) simp
    with True show ?thesis
      by (blast intro: reach.start)
  next
    case False
    from dig_step_spec [OF less.prems False] obtain st1 where
      s: "dig_step st = Inr st1" and i: "inv st1"
      and m: "3 * walls st1 + length (doorways st1) < 3 * walls st + length (doorways st)"
      by blast
    from less.hyps [OF m i] obtain st' where
      d: "dig_drain st1 = Some (Inr st')" and e: "doorways st' = []" and r: "reach st1 st'"
      by blast
    have "dig_drain st = dig_drain st1"
      using False s by (subst dig_drain.simps) simp
    with d e reach_first [OF r False s] show ?thesis
      by auto
  qed
qed

lemma dig_seed_inv:
  assumes "dig_seed (init_map w h rnd) = Inr st0"
  shows "inv st0 \<and> size_x st0 = w \<and> size_y st0 = h"
proof -
  define e where "e = Vector (w div 2) (h - 1)"
  define st where "st = init_map w h rnd"
  define G where "G = (grid st)(e \<mapsto> TILE_DOOR, e + Vector 1 0 \<mapsto> TILE_WALL,
      e - Vector 1 0 \<mapsto> TILE_WALL)"
  have ok: "grid_ok st"
    unfolding st_def by (rule grid_ok_init_map)
  have sz: "size_x st = w" "size_y st = h" "doorways st = []"
    by (simp_all add: st_def init_map_def)
  have ne: "e + Vector 1 0 \<noteq> e" "e - Vector 1 0 \<noteq> e" "e - Vector 1 0 \<noteq> e + Vector 1 0"
    by (simp_all add: Vector_eq_iff)
  let ?D = "\<lparr>location = e, heading = Vector 0 (- 1), has_door = True\<rparr>"
  from assms obtain s2 s3 where w1: "grid_write (push_back st ?D) e TILE_DOOR = Inr s2"
    and w2: "grid_write s2 (e + Vector 1 0) TILE_WALL = Inr s3"
    and w3: "grid_write s3 (e - Vector 1 0) TILE_WALL = Inr st0"
    unfolding dig_seed_def Let_def st_def [symmetric] sz e_def [symmetric]
    by (auto simp: door_tile_def fill_tile_def split: sum.splits)
  from grid_write_Inr [OF w1] have a1: "grid st e \<noteq> None"
    and s2: "s2 = st\<lparr>grid := (grid st)(e \<mapsto> TILE_DOOR), doorways := [?D]\<rparr>"
    by (simp_all add: push_back_def sz)
  from grid_write_Inr [OF w2] have a2: "grid st (e + Vector 1 0) \<noteq> None"
    and s3: "s3 = st\<lparr>grid := (grid st)(e \<mapsto> TILE_DOOR, e + Vector 1 0 \<mapsto> TILE_WALL),
        doorways := [?D]\<rparr>"
    using ne by (simp_all add: s2)
  from grid_write_Inr [OF w3] have a3: "grid st (e - Vector 1 0) \<noteq> None"
    and st0: "st0 = st\<lparr>grid := G, doorways := [?D]\<rparr>"
    using ne by (simp_all add: s3 G_def)
  note al = a1 a2 a3
  have unk: "\<And>v. grid st v = None \<or> grid st v = Some TILE_UNKNOWN"
    by (simp add: st_def init_map_def)
  have ok0: "grid_ok st0"
    using ok al by (auto simp: grid_ok_def st0 G_def is_in_bounds_or_border_def)
  have ein: "is_in_bounds_or_border st0 e"
    using ok al(1) by (simp add: grid_ok_def st0 is_in_bounds_or_border_def)
  have op: "\<And>v. open_at st0 v \<Longrightarrow> v = e"
  proof -
    fix v assume o: "open_at st0 v"
    show "v = e"
    proof (rule ccontr)
      assume "v \<noteq> e"
      with o have "grid st v = Some TILE_FLOOR \<or> grid st v = Some TILE_DOOR"
        by (auto simp: open_at_def st0 G_def split: if_splits)
      with unk [of v] show False
        by auto
    qed
  qed
  have e0: "entrance0 st0 = e"
    by (simp add: entrance0_def st0 sz e_def)
  have "door_ok st0 \<lparr>location = e, heading = Vector 0 (- 1), has_door = True\<rparr>"
    using ein by (simp add: door_ok_def e0 is_dir_def)
  moreover have "doorways st0 = [\<lparr>location = e, heading = Vector 0 (- 1), has_door = True\<rparr>]"
    by (simp add: st0)
  ultimately have "inv st0"
    unfolding inv_def e0 using ok0 op by auto
  then show ?thesis
    by (simp add: st0 sz)
qed

lemma dig_seed_ok:
  assumes "3 \<le> w" "1 \<le> h"
  shows "\<exists>st0. dig_seed (init_map w h rnd) = Inr st0"
proof -
  have "0 < w div 2" "w div 2 + 1 < w"
    using assms by presburger+
  with assms show ?thesis
    by (simp add: dig_seed_def init_map_def push_back_def door_tile_def fill_tile_def
        grid_write_def Let_def Vector_eq_iff)
qed

lemma drain_steps:
  "inv st \<Longrightarrow> \<exists>n st'. n \<le> 3 * walls st + length (doorways st)
      \<and> dig_steps n st = Inr st' \<and> doorways st' = [] \<and> reach st st'"
proof (induction "3 * walls st + length (doorways st)" arbitrary: st rule: less_induct)
  case less
  show ?case
  proof (cases "doorways st = []")
    case True
    have "dig_steps 0 st = Inr st"
      by simp
    with True show ?thesis
      by (blast intro: reach.start)
  next
    case False
    from dig_step_spec [OF less.prems False] obtain st1 where
      s: "dig_step st = Inr st1" and i: "inv st1"
      and m: "3 * walls st1 + length (doorways st1) < 3 * walls st + length (doorways st)"
      by blast
    from less.hyps [OF m i] obtain n st' where
      n: "n \<le> 3 * walls st1 + length (doorways st1)"
      and d: "dig_steps n st1 = Inr st'" and e: "doorways st' = []" and r: "reach st1 st'"
      by blast
    have "dig_steps (Suc n) st = Inr st'"
      using False s d by simp
    moreover have "Suc n \<le> 3 * walls st + length (doorways st)"
      using n m by linarith
    ultimately show ?thesis
      using e reach_first [OF r False s] by blast
  qed
qed

lemma walls_le:
  assumes ok: "grid_ok st"
  shows "walls st \<le> nat (size_x st) * nat (size_y st)"
proof -
  have "{v. wall_at st v} \<subseteq> (\<lambda>(a, b). Vector a b) ` ({0..<size_x st} \<times> {0..<size_y st})"
  proof
    fix v assume "v \<in> {v. wall_at st v}"
    then have "grid st v \<noteq> None"
      by (auto simp: wall_at_def split: option.splits)
    with ok have "is_in_bounds_or_border st v"
      by (simp add: grid_ok_def)
    then have "(vx v, vy v) \<in> {0..<size_x st} \<times> {0..<size_y st}"
      by (simp add: is_in_bounds_or_border_def)
    moreover have "v = (\<lambda>(a, b). Vector a b) (vx v, vy v)"
      by simp
    ultimately show "v \<in> (\<lambda>(a, b). Vector a b) ` ({0..<size_x st} \<times> {0..<size_y st})"
      by (rule rev_image_eqI)
  qed
  then have "card {v. wall_at st v}
      \<le> card ((\<lambda>(a, b). Vector a b) ` ({0..<size_x st} \<times> {0..<size_y st}))"
    by (intro card_mono) simp_all
  also have "\<dots> \<le> card ({0..<size_x st} \<times> {0..<size_y st})"
    by (intro card_image_le) simp
  also have "\<dots> = nat (size_x st) * nat (size_y st)"
    by (simp add: card_cartesian_product)
  finally show ?thesis
    by (simp add: walls_def)
qed

lemma dig_seed_doorways:
  assumes "dig_seed st = Inr st0"
  shows "doorways st0 = doorways st
     @ [\<lparr>location = Vector (size_x st div 2) (size_y st - 1), heading = Vector 0 (- 1),
          has_door = True\<rparr>]"
  using assms
  by (auto simp: dig_seed_def Let_def door_tile_def fill_tile_def push_back_def
      split: sum.splits dest!: grid_write_doorways)

section \<open>The border (C1)\<close>

text \<open>
  C1, as amended. Let the statements before the loop succeed on a \<open>w\<close> by \<open>h\<close> grid. In
  the state they leave and in every state after any number of iterations of the loop, each
  border cell (x = 0, x = w - 1, y = 0 or y = h - 1) other than the entrance cell
  (w div 2, h - 1) is unknown, wall or permawall, never floor or door. \<open>dig_loop\<close> returns,
  and the grid it returns is one of these states.
\<close>

theorem border_cells_closed:
  assumes "dig_seed (init_map w h rnd) = Inr st0"
  shows "(\<forall>st v. reach st0 st \<and> on_border w h v \<and> v \<noteq> Vector (w div 2) (h - 1) \<longrightarrow>
            grid st v = Some TILE_UNKNOWN \<or> grid st v = Some TILE_WALL
            \<or> grid st v = Some TILE_PERMAWALL)
    \<and> (\<exists>stf. dig_loop (init_map w h rnd) = Some (Inr stf) \<and> reach st0 stf)"
proof -
  from dig_seed_inv [OF assms] have i0: "inv st0" and sz0: "size_x st0 = w" "size_y st0 = h"
    by auto
  have "\<forall>st v. reach st0 st \<and> on_border w h v \<and> v \<noteq> Vector (w div 2) (h - 1) \<longrightarrow>
            grid st v = Some TILE_UNKNOWN \<or> grid st v = Some TILE_WALL
            \<or> grid st v = Some TILE_PERMAWALL"
  proof (intro allI impI)
    fix st v
    assume a: "reach st0 st \<and> on_border w h v \<and> v \<noteq> Vector (w div 2) (h - 1)"
    with reach_inv [OF _ i0] have i: "inv st" and sz: "size_x st = w" "size_y st = h"
      by (auto simp: sz0)
    from a have inb: "is_in_bounds_or_border st v" and nb: "\<not> is_in_bounds st v"
      and ne: "v \<noteq> entrance0 st"
      by (auto simp: on_border_def is_in_bounds_or_border_def is_in_bounds_def entrance0_def sz)
    from i have ok: "grid_ok st"
      and brd: "\<forall>v. open_at st v \<longrightarrow> is_in_bounds st v \<or> v = entrance0 st"
      by (auto simp: inv_def)
    from grid_ok_alloc [OF ok inb] obtain t where t: "grid st v = Some t"
      by blast
    from brd nb ne have "\<not> open_at st v"
      by blast
    with t show "grid st v = Some TILE_UNKNOWN \<or> grid st v = Some TILE_WALL
            \<or> grid st v = Some TILE_PERMAWALL"
      by (cases t) (simp_all add: open_at_def)
  qed
  moreover from drain_terminates [OF i0] assms
  have "\<exists>stf. dig_loop (init_map w h rnd) = Some (Inr stf) \<and> reach st0 stf"
    by (auto simp: dig_loop_def)
  ultimately show ?thesis
    by blast
qed

theorem border_cells_closed_witness:
  "\<exists>stf. dig_loop (init_map 20 20
       (nth_default 0 ([0, 0, 0, 0, 1, 1, 0, 0, 0, 0, 1, 0, 1, 0, 0, 0] @ replicate 55 1)))
       = Some (Inr stf)
     \<and> (grid stf (Vector 8 19) = Some TILE_UNKNOWN \<or> grid stf (Vector 8 19) = Some TILE_WALL
         \<or> grid stf (Vector 8 19) = Some TILE_PERMAWALL)"
proof -
  define rnd where
    "rnd = nth_default 0 ([0, 0, 0, 0, 1, 1, 0, 0, 0, 0, 1, 0, 1, 0, 0, 0] @ replicate 55 (1::nat))"
  from dig_seed_ok [of 20 20 rnd] obtain st0 where s: "dig_seed (init_map 20 20 rnd) = Inr st0"
    by auto
  from border_cells_closed [OF s] obtain stf where
    f: "dig_loop (init_map 20 20 rnd) = Some (Inr stf)" and r: "reach st0 stf"
    and b: "\<forall>st v. reach st0 st \<and> on_border 20 20 v \<and> v \<noteq> Vector (20 div 2) (20 - 1) \<longrightarrow>
            grid st v = Some TILE_UNKNOWN \<or> grid st v = Some TILE_WALL
            \<or> grid st v = Some TILE_PERMAWALL"
    by blast
  have "on_border 20 20 (Vector 8 19)" "Vector 8 19 \<noteq> Vector (20 div 2) (20 - 1)"
    by (simp_all add: on_border_def)
  with b r have "grid stf (Vector 8 19) = Some TILE_UNKNOWN \<or> grid stf (Vector 8 19) = Some TILE_WALL
         \<or> grid stf (Vector 8 19) = Some TILE_PERMAWALL"
    by blast
  with f show ?thesis
    unfolding rnd_def by blast
qed

section \<open>Termination (C7)\<close>

text \<open>
  On a grid of width 2 the statements before the loop call \<open>fill_tile\<close> on a cell
  outside the allocation, for every random sequence: the run does not reach the loop, let
  alone its end.
\<close>

theorem seeding_2_3_not_done:
  "\<forall>rnd. dig_loop (init_map 2 3 rnd) = Some (Inl OutOfBounds)"
  by (simp add: dig_loop_def dig_seed_def init_map_def push_back_def door_tile_def fill_tile_def
      grid_write_def Let_def Vector_eq_iff)

text \<open>
  C7, as amended. For every width of at least 3, every height of at least 1 and every
  random sequence, the statements before the loop succeed and \<open>dig_loop\<close> returns a
  state with \<open>doorways\<close> empty. That state is the one after \<open>n\<close> iterations of the loop,
  for an \<open>n\<close> of at most 3 * width * height + 1. In every state on the way the iteration
  erases exactly one doorway and appends at most three, and it makes
  3 * (number of wall-like cells) + (length of \<open>doorways\<close>) strictly smaller.
\<close>

theorem generation_terminates:
  assumes "3 \<le> w" and "1 \<le> h"
  shows "\<exists>st0 stf n. dig_seed (init_map w h rnd) = Inr st0
      \<and> dig_loop (init_map w h rnd) = Some (Inr stf)
      \<and> n \<le> 3 * nat w * nat h + 1 \<and> dig_steps n st0 = Inr stf
      \<and> reach st0 stf \<and> doorways stf = []
      \<and> (\<forall>st. reach st0 st \<and> doorways st \<noteq> [] \<longrightarrow>
            (\<exists>st' i ds. dig_step st = Inr st' \<and> i < length (doorways st)
               \<and> doorways st' = erase (doorways st) i @ ds \<and> length ds \<le> 3
               \<and> 3 * walls st' + length (doorways st')
                   < 3 * walls st + length (doorways st)))"
proof -
  from assms dig_seed_ok [of w h rnd] obtain st0 where s: "dig_seed (init_map w h rnd) = Inr st0"
    by auto
  from dig_seed_inv [OF s] have i0: "inv st0" and sz: "size_x st0 = w" "size_y st0 = h"
    by auto
  from dig_seed_doorways [OF s] have "length (doorways st0) = 1"
    by (simp add: init_map_def)
  moreover from i0 have "walls st0 \<le> nat w * nat h"
    using walls_le [of st0] by (simp add: inv_def sz)
  ultimately have m: "3 * walls st0 + length (doorways st0) \<le> 3 * nat w * nat h + 1"
    by simp
  from drain_steps [OF i0] obtain n stf where
    n: "n \<le> 3 * walls st0 + length (doorways st0)"
    and d: "dig_steps n st0 = Inr stf" and e: "doorways stf = []" and r: "reach st0 stf"
    by blast
  from dig_steps_drain [OF d e] s have l: "dig_loop (init_map w h rnd) = Some (Inr stf)"
    by (simp add: dig_loop_def)
  have pops: "\<exists>st' i ds. dig_step st = Inr st' \<and> i < length (doorways st)
               \<and> doorways st' = erase (doorways st) i @ ds \<and> length ds \<le> 3
               \<and> 3 * walls st' + length (doorways st') < 3 * walls st + length (doorways st)"
    if "reach st0 st" "doorways st \<noteq> []" for st
  proof -
    from reach_inv [OF that(1) i0] have "inv st"
      by blast
    from dig_step_spec [OF this that(2)] show ?thesis
      by blast
  qed
  from n m have "n \<le> 3 * nat w * nat h + 1"
    by linarith
  with s l d r e pops show ?thesis
    by blast
qed

theorem generation_terminates_witness:
  "\<exists>st0 st1 stf d0 d1 d2 d3.
     dig_seed (init_map 20 20
       (nth_default 0 ([0, 0, 0, 0, 1, 1, 0, 0, 0, 0, 1, 0, 1, 0, 0, 0] @ replicate 55 1))) = Inr st0
     \<and> doorways st0 = [d0]
     \<and> dig_step st0 = Inr st1 \<and> doorways st1 = [d1, d2, d3]
     \<and> dig_loop (init_map 20 20
       (nth_default 0 ([0, 0, 0, 0, 1, 1, 0, 0, 0, 0, 1, 0, 1, 0, 0, 0] @ replicate 55 1)))
         = Some (Inr stf)
     \<and> dig_steps 7 st0 = Inr stf \<and> doorways stf = [] \<and> reach st0 stf"
proof -
  define rnd where
    "rnd = nth_default 0 ([0, 0, 0, 0, 1, 1, 0, 0, 0, 0, 1, 0, 1, 0, 0, 0] @ replicate 55 (1::nat))"
  define w where "w = init_map 20 20 rnd"
  have "(3::int) \<le> 20" "(1::int) \<le> 20"
    by simp_all
  from generation_terminates [OF this, of rnd] obtain st0 stf where
    s: "dig_seed w = Inr st0" and l: "dig_loop w = Some (Inr stf)"
    and r: "reach st0 stf" and e: "doorways stf = []"
    and p: "\<forall>st. reach st0 st \<and> doorways st \<noteq> [] \<longrightarrow>
            (\<exists>st' i ds. dig_step st = Inr st' \<and> i < length (doorways st)
               \<and> doorways st' = erase (doorways st) i @ ds \<and> length ds \<le> 3
               \<and> 3 * walls st' + length (doorways st')
                   < 3 * walls st + length (doorways st))"
    unfolding w_def by blast
  have st0: "st0 = projr (dig_seed w)"
    using s by simp
  have "length (doorways st0) = 1"
    unfolding st0 w_def rnd_def by code_simp
  then obtain d0 where d0: "doorways st0 = [d0]"
    by (cases "doorways st0") auto
  then have "doorways st0 \<noteq> []"
    by simp
  with p reach.start [of st0] obtain st1 where s1: "dig_step st0 = Inr st1"
    by blast
  have st1: "st1 = projr (dig_step st0)"
    using s1 by simp
  have "length (doorways st1) = 3"
    unfolding st1 st0 w_def rnd_def by code_simp
  then obtain d1 d2 d3 where d1: "doorways st1 = [d1, d2, d3]"
    by (auto simp: length_Suc_conv numeral_3_eq_3)
  have "case dig_steps 7 st0 of Inl e \<Rightarrow> False | Inr st \<Rightarrow> doorways st = []"
    unfolding st0 w_def rnd_def by code_simp
  then obtain st7 where s7: "dig_steps 7 st0 = Inr st7" "doorways st7 = []"
    by (auto split: sum.splits)
  from dig_steps_drain [OF s7] s l have "st7 = stf"
    by (simp add: dig_loop_def)
  with s l r e d0 s1 d1 s7 show ?thesis
    unfolding w_def rnd_def by blast
qed

end
